theory Spec2Isabelle
  imports Complex_Main "HOL-Library.Word" "HOL-Library.Log_Nat"
begin

unbundle bit_operations_syntax

section \<open>JavaScript numbers\<close>

text \<open>
  A JavaScript number is an IEEE-754 binary64 value.  A finite value is modelled by the
  rational it denotes, the three non-finite values by constructors of their own.  The two
  zeros are identified: the program never divides by a zero it has computed, and every other
  operation it uses treats them alike.

  Arithmetic computes the exact rational result and rounds it to the nearest value with a
  53-bit significand, ties to even, with gradual underflow below \<open>2 powi (- 1022)\<close> and
  overflow to infinity from \<open>2 powi 1024\<close> on.
\<close>

datatype double = Fin rat | PInf | NInf | NaN

text \<open>\<open>ilog2 a\<close> is the binary exponent of a positive rational: \<open>2 powi ilog2 a \<le> a < 2 powi (ilog2 a + 1)\<close>.\<close>

definition ilog2 :: "rat \<Rightarrow> int" where
  "ilog2 a = (let (p, q) = quotient_of a; d = bitlen p - bitlen q
              in if 2 powi d \<le> a then d else d - 1)"

definition round_even :: "rat \<Rightarrow> int" where
  "round_even x = (let f = \<lfloor>x\<rfloor>; r = x - of_int f
                   in if r < 1 / 2 then f else if 1 / 2 < r then f + 1
                      else if even f then f else f + 1)"

definition rnd :: "rat \<Rightarrow> rat" where
  "rnd a = (if a = 0 then 0
            else let u = 2 powi (max (ilog2 \<bar>a\<bar>) (- 1022) - 52)
                 in sgn a * of_int (round_even (\<bar>a\<bar> / u)) * u)"

definition fl :: "rat \<Rightarrow> double" where
  "fl a = (let v = rnd a
           in if 2 powi 1024 \<le> v then PInf else if v \<le> - (2 powi 1024) then NInf else Fin v)"

fun dneg :: "double \<Rightarrow> double" where
  "dneg (Fin a) = Fin (- a)"
| "dneg PInf = NInf"
| "dneg NInf = PInf"
| "dneg NaN = NaN"

fun dadd :: "double \<Rightarrow> double \<Rightarrow> double" where
  "dadd (Fin a) (Fin b) = fl (a + b)"
| "dadd NaN _ = NaN"
| "dadd _ NaN = NaN"
| "dadd PInf NInf = NaN"
| "dadd NInf PInf = NaN"
| "dadd PInf _ = PInf"
| "dadd _ PInf = PInf"
| "dadd NInf _ = NInf"
| "dadd _ NInf = NInf"

definition dsub :: "double \<Rightarrow> double \<Rightarrow> double" where
  "dsub a b = dadd a (dneg b)"

text \<open>The sign of a product or quotient with an infinite operand.\<close>

definition signed_inf :: "bool \<Rightarrow> double" where
  "signed_inf positive = (if positive then PInf else NInf)"

fun dmul :: "double \<Rightarrow> double \<Rightarrow> double" where
  "dmul (Fin a) (Fin b) = fl (a * b)"
| "dmul NaN _ = NaN"
| "dmul _ NaN = NaN"
| "dmul (Fin a) PInf = (if a = 0 then NaN else signed_inf (0 < a))"
| "dmul (Fin a) NInf = (if a = 0 then NaN else signed_inf (a < 0))"
| "dmul PInf (Fin b) = (if b = 0 then NaN else signed_inf (0 < b))"
| "dmul NInf (Fin b) = (if b = 0 then NaN else signed_inf (b < 0))"
| "dmul PInf PInf = PInf"
| "dmul NInf NInf = PInf"
| "dmul PInf NInf = NInf"
| "dmul NInf PInf = NInf"

fun ddiv :: "double \<Rightarrow> double \<Rightarrow> double" where
  "ddiv (Fin a) (Fin b) =
     (if b = 0 then (if a = 0 then NaN else signed_inf (0 < a)) else fl (a / b))"
| "ddiv NaN _ = NaN"
| "ddiv _ NaN = NaN"
| "ddiv (Fin a) _ = Fin 0"
| "ddiv PInf (Fin b) = signed_inf (0 \<le> b)"
| "ddiv NInf (Fin b) = signed_inf (b < 0)"
| "ddiv _ _ = NaN"

text \<open>The comparison \<open><\<close>: false as soon as one side is NaN.\<close>

fun dless :: "double \<Rightarrow> double \<Rightarrow> bool" where
  "dless (Fin a) (Fin b) = (a < b)"
| "dless NaN _ = False"
| "dless _ NaN = False"
| "dless _ NInf = False"
| "dless PInf _ = False"
| "dless _ _ = True"

definition Math_max :: "double \<Rightarrow> double \<Rightarrow> double" where
  "Math_max a b = (if a = NaN \<or> b = NaN then NaN else if dless a b then b else a)"

definition Math_min :: "double \<Rightarrow> double \<Rightarrow> double" where
  "Math_min a b = (if a = NaN \<or> b = NaN then NaN else if dless b a then b else a)"

text \<open>\<open>ToInt32\<close>, the conversion behind \<open>| 0\<close>, \<open>^\<close> and \<open>&\<close>: a non-finite value
  becomes 0, a finite one is truncated towards zero and wrapped to 32 bits.\<close>

definition js_trunc :: "rat \<Rightarrow> int" where
  "js_trunc v = (if 0 \<le> v then \<lfloor>v\<rfloor> else \<lceil>v\<rceil>)"

fun to_int32 :: "double \<Rightarrow> 32 word" where
  "to_int32 (Fin v) = word_of_int (js_trunc v)"
| "to_int32 _ = 0"

text \<open>A byte read from a typed array, as a number.\<close>

definition of_byte :: "8 word \<Rightarrow> double" where
  "of_byte b = Fin (of_nat (unat b))"

section \<open>Run-length codec\<close>

text \<open>
  A \<open>Uint8Array\<close> is a list of 8-bit words.  The two codec functions are the index
  loops of the source: \<open>i\<close> is the read position, \<open>result\<close> the output built so far.
  Lists have no maximal length: the limit an engine puts on the size of an array is not
  modelled.
\<close>

type_synonym bytes = "8 word list"

text \<open>The inner \<open>while\<close> of \<open>quantumCompress\<close>: extend the run while the next byte
  exists, equals \<open>data[i]\<close> and the run is shorter than 255.\<close>

function run_length :: "bytes \<Rightarrow> nat \<Rightarrow> nat \<Rightarrow> nat" where
  "run_length data i runLength =
     (if i + runLength < length data \<and> data ! i = data ! (i + runLength) \<and> runLength < 255
      then run_length data i (runLength + 1)
      else runLength)"
  by pat_completeness auto
termination
  by (relation "measure (\<lambda>(data, i, runLength). 255 - runLength)") auto

declare run_length.simps [simp del]

text \<open>The \<open>for j\<close> loop that stores a short run byte by byte, escaping the marker.\<close>

definition push_raw :: "bytes \<Rightarrow> nat \<Rightarrow> nat \<Rightarrow> bytes \<Rightarrow> bytes" where
  "push_raw data i runLength result =
     fold (\<lambda>j res. let byte = data ! (i + j)
                   in if byte = 0xFE then res @ [0xFE, 1, byte] else res @ [byte])
          [0..<runLength] result"

definition emit_run :: "bytes \<Rightarrow> nat \<Rightarrow> nat \<Rightarrow> bytes \<Rightarrow> bytes" where
  "emit_run data i runLength result =
     (if runLength \<ge> 3 then result @ [0xFE, of_nat runLength, data ! i]
      else push_raw data i runLength result)"

lemma run_length_step:
  assumes "i + runLength < length data \<and> data ! i = data ! (i + runLength) \<and> runLength < 255"
  shows "run_length data i runLength = run_length data i (runLength + 1)"
  by (subst run_length.simps) (simp add: assms)

lemma run_length_stop:
  assumes "\<not> (i + runLength < length data \<and> data ! i = data ! (i + runLength) \<and> runLength < 255)"
  shows "run_length data i runLength = runLength"
  by (subst run_length.simps) (simp only: assms if_False)

lemma run_length_ge: "runLength \<le> run_length data i runLength"
proof (induction data i runLength rule: run_length.induct)
  case (1 data i runLength)
  show ?case
  proof (cases "i + runLength < length data \<and> data ! i = data ! (i + runLength) \<and> runLength < 255")
    case True
    with 1 have "runLength + 1 \<le> run_length data i (runLength + 1)" by blast
    then show ?thesis by (simp add: run_length_step [OF True])
  next
    case False
    then show ?thesis by (simp add: run_length_stop)
  qed
qed

function compress_loop :: "bytes \<Rightarrow> nat \<Rightarrow> bytes \<Rightarrow> bytes" where
  "compress_loop data i result =
     (if i < length data
      then let runLength = run_length data i 1
           in compress_loop data (i + runLength) (emit_run data i runLength result)
      else result)"
  by pat_completeness auto
termination
proof (relation "measure (\<lambda>(data, i, result). length data - i)")
  show "wf (measure (\<lambda>(data, i, result). length data - i))" by simp
next
  fix data :: bytes and i :: nat and result :: bytes and x :: nat
  assume "i < length data" and "x = run_length data i 1"
  moreover have "1 \<le> run_length data i 1" by (rule run_length_ge)
  ultimately show "((data, i + x, emit_run data i x result), (data, i, result))
      \<in> measure (\<lambda>(data, i, result). length data - i)"
    by simp
qed

declare compress_loop.simps [simp del]

definition quantumCompress :: "bytes \<Rightarrow> bytes" where
  "quantumCompress data = compress_loop data 0 []"

function decompress_loop :: "bytes \<Rightarrow> nat \<Rightarrow> bytes \<Rightarrow> bytes" where
  "decompress_loop data i result =
     (if i < length data
      then (if data ! i = 0xFE \<and> i + 2 < length data
            then let len = data ! (i + 1); val = data ! (i + 2)
                 in decompress_loop data (i + 3) (result @ replicate (unat len) val)
            else decompress_loop data (i + 1) (result @ [data ! i]))
      else result)"
  by pat_completeness auto
termination
  by (relation "measure (\<lambda>(data, i, result). length data - i)") auto

declare decompress_loop.simps [simp del]

definition quantumDecompress :: "bytes \<Rightarrow> bytes" where
  "quantumDecompress data = decompress_loop data 0 []"

text \<open>What one byte of a short run becomes in the output.\<close>

definition escape :: "8 word \<Rightarrow> bytes" where
  "escape byte = (if byte = 0xFE then [0xFE, 1, byte] else [byte])"

section \<open>Chaotic maps and the entropy stream\<close>

definition logisticMap :: "double \<Rightarrow> double \<Rightarrow> double" where
  "logisticMap x r = dmul (dmul r x) (dsub (Fin 1) x)"

definition tentMap :: "double \<Rightarrow> double \<Rightarrow> double" where
  "tentMap x mu = (if dless x (Fin (1 / 2)) then dmul mu x else dmul mu (dsub (Fin 1) x))"

text \<open>The default parameters \<open>r = 3.99\<close> and \<open>mu = 1.99\<close>; no call overrides them.\<close>

definition default_r :: double where
  "default_r = fl (399 / 100)"

definition default_mu :: double where
  "default_mu = fl (199 / 100)"

text \<open>A password is a JavaScript string: a sequence of 16-bit code units, which is what
  \<open>charCodeAt\<close> reads.\<close>

type_synonym jsstring = "16 word list"

text \<open>One round of the password loop: \<open>hash = ((hash << 5) - hash + char) | 0\<close>, then
  \<open>hash = hash ^ (hash >>> 16)\<close>, on a 32-bit integer.\<close>

definition hash_char :: "32 word \<Rightarrow> 16 word \<Rightarrow> 32 word" where
  "hash_char hash char =
     (let hash = push_bit 5 hash - hash + ucast char
      in hash XOR drop_bit 16 hash)"

definition generateEntropySeed :: "jsstring \<Rightarrow> double" where
  "generateEntropySeed password =
     (let hash = foldl hash_char 0 password;
          normalized = ddiv (Fin (of_int \<bar>sint hash\<bar>)) (Fin 2147483647)
      in Math_max (fl (1 / 10000)) (Math_min (fl (9999 / 10000)) normalized))"

text \<open>The burn-in loop and the yielding loop of the generator.  The generator is consumed
  to its end by every caller, so it is modelled by the list of the values it yields; each
  value is the 32-bit integer that \<open>| 0\<close> produces.\<close>

fun burn_in :: "nat \<Rightarrow> double \<Rightarrow> double \<Rightarrow> double \<times> double" where
  "burn_in 0 x y = (x, y)"
| "burn_in (Suc n) x y = burn_in n (logisticMap x default_r) (tentMap y default_mu)"

fun yield_loop :: "nat \<Rightarrow> double \<Rightarrow> double \<Rightarrow> 32 word list" where
  "yield_loop 0 x y = []"
| "yield_loop (Suc n) x y =
     (let x = logisticMap x default_r;
          y = tentMap y default_mu
      in to_int32 (dmul (ddiv (dadd x y) (Fin 2)) (Fin 256)) # yield_loop n x y)"

definition entropyStream :: "double \<Rightarrow> nat \<Rightarrow> 32 word list" where
  "entropyStream seed iterations =
     (let x = seed;
          y = tentMap seed default_mu;
          (x, y) = burn_in 100 x y
      in yield_loop iterations x y)"

section \<open>Fingerprint and hash\<close>

definition hex_digit :: "nat \<Rightarrow> char" where
  "hex_digit d = ''0123456789abcdef'' ! d"

text \<open>\<open>Number.prototype.toString(16)\<close> on an integer, and \<open>padStart(2, '0')\<close>.\<close>

fun hex_digits :: "nat \<Rightarrow> string" where
  "hex_digits n = (if n < 16 then [hex_digit n] else hex_digits (n div 16) @ [hex_digit (n mod 16)])"

declare hex_digits.simps [simp del]

definition toString16 :: "int \<Rightarrow> string" where
  "toString16 n = (if n < 0 then CHR ''-'' # hex_digits (nat (- n)) else hex_digits (nat n))"

definition padStart2 :: "string \<Rightarrow> string" where
  "padStart2 s = replicate (2 - length s) CHR ''0'' @ s"

definition generateEntropyFingerprint :: "jsstring \<Rightarrow> string" where
  "generateEntropyFingerprint password =
     (let seed = generateEntropySeed password;
          fingerprint = entropyStream seed 32
      in concat (map (\<lambda>b. padStart2 (toString16 (sint b))) fingerprint))"

text \<open>The 32-byte hash buffer is a \<open>Uint8Array\<close>: a store keeps the low eight bits.\<close>

definition hash_init :: "32 word list \<Rightarrow> bytes" where
  "hash_init initStream =
     fold (\<lambda>(idx, byte) hash. hash[idx := ucast byte]) (enumerate 0 initStream) (replicate 32 0)"

definition hash_mix :: "bytes \<Rightarrow> nat \<Rightarrow> bytes \<Rightarrow> bytes" where
  "hash_mix data i hash =
     (let pos = i mod 32;
          hash = hash[pos := ucast ((ucast (hash ! pos) XOR ucast (data ! i)
                   XOR to_int32 (dmul (logisticMap (ddiv (of_byte (hash ! pos)) (Fin 256)) default_r) (Fin 256)))
                   AND (0xFF :: 32 word))]
      in if i mod 32 = 31
         then fold (\<lambda>j hash. hash[j := ucast ((ucast (hash ! j) + ucast (hash ! ((j + 1) mod 32)))
                                  AND (0xFF :: 32 word))]) [0..<32] hash
         else hash)"

definition hash_round :: "bytes \<Rightarrow> bytes" where
  "hash_round hash =
     fold (\<lambda>j hash.
             let hash = hash[j := ucast ((ucast (hash ! j) XOR ucast (hash ! ((j + 13) mod 32)))
                                  AND (0xFF :: 32 word))]
             in hash[j := ucast (to_int32 (dadd (of_byte (hash ! j))
                                  (dmul (logisticMap (ddiv (of_byte (hash ! j)) (Fin 256)) default_r) (Fin 128)))
                                  AND (0xFF :: 32 word))])
          [0..<32] hash"

definition quantumHash :: "bytes \<Rightarrow> jsstring \<Rightarrow> string" where
  "quantumHash data password =
     (let seed = generateEntropySeed password;
          hash = hash_init (entropyStream seed 32);
          hash = fold (hash_mix data) [0..<length data] hash;
          hash = (hash_round ^^ 16) hash
      in concat (map (\<lambda>b. padStart2 (toString16 (uint b))) hash))"

section \<open>Encryption and decryption\<close>

text \<open>
  The optional progress callback is foreign code: it is modelled as a transformer of a
  state \<open>'w\<close> of its own that may throw a value of type \<open>'e\<close>.  The arrays the two functions
  allocate are local to them, so the callback reaches none of them.
\<close>

datatype 'e js_exn = RangeError | Thrown 'e

type_synonym ('w, 'e) callback = "double \<Rightarrow> 'w \<Rightarrow> 'e + 'w"

text \<open>The object \<open>{ encrypted, fingerprint, hash }\<close> that \<open>quantumEncrypt\<close> returns.\<close>

record enc_result =
  r_encrypted :: bytes
  r_fingerprint :: string
  r_hash :: string

text \<open>\<open>(n >>> k) & 0xFF\<close> on a length, stored into a typed array.\<close>

definition length_byte :: "nat \<Rightarrow> nat \<Rightarrow> 8 word" where
  "length_byte n k = ucast (drop_bit k (of_nat n :: 32 word) AND 0xFF)"

text \<open>The \<open>for (const keyByte of stream)\<close> loop of \<open>quantumEncrypt\<close>.\<close>

fun encrypt_loop ::
  "32 word list \<Rightarrow> bytes \<Rightarrow> ('w, 'e) callback option \<Rightarrow> nat \<Rightarrow> nat \<Rightarrow> bytes \<Rightarrow> 'w
   \<Rightarrow> 'e js_exn + bytes \<times> 'w" where
  "encrypt_loop [] compressed onProgress idx processedBytes encrypted w = Inr (encrypted, w)"
| "encrypt_loop (keyByte # stream) compressed onProgress idx processedBytes encrypted w =
     (if idx - 8 \<ge> length compressed then Inr (encrypted, w)
      else let encrypted = encrypted[idx := ucast (ucast (compressed ! (idx - 8)) XOR keyByte)];
               idx = idx + 1;
               processedBytes = processedBytes + 1
           in case onProgress of
                Some f \<Rightarrow>
                  if processedBytes mod 1024 = 0
                  then (case f (ddiv (Fin (of_nat processedBytes)) (Fin (of_nat (length compressed)))) w of
                          Inl e \<Rightarrow> Inl (Thrown e)
                        | Inr w' \<Rightarrow> encrypt_loop stream compressed onProgress idx processedBytes encrypted w')
                  else encrypt_loop stream compressed onProgress idx processedBytes encrypted w
              | None \<Rightarrow> encrypt_loop stream compressed onProgress idx processedBytes encrypted w)"

definition quantumEncrypt ::
  "bytes \<Rightarrow> jsstring \<Rightarrow> ('w, 'e) callback option \<Rightarrow> 'w \<Rightarrow> 'e js_exn + enc_result \<times> 'w" where
  "quantumEncrypt data password onProgress w =
     (let seed = generateEntropySeed password;
          fingerprint = generateEntropyFingerprint password;
          compressed = quantumCompress data;
          encrypted = replicate (length compressed + 8) 0;
          encrypted = encrypted[0 := length_byte (length data) 24];
          encrypted = encrypted[1 := length_byte (length data) 16];
          encrypted = encrypted[2 := length_byte (length data) 8];
          encrypted = encrypted[3 := length_byte (length data) 0];
          encrypted = encrypted[4 := length_byte (length compressed) 24];
          encrypted = encrypted[5 := length_byte (length compressed) 16];
          encrypted = encrypted[6 := length_byte (length compressed) 8];
          encrypted = encrypted[7 := length_byte (length compressed) 0];
          stream = entropyStream seed (length compressed)
      in case encrypt_loop stream compressed onProgress 8 0 encrypted w of
           Inl e \<Rightarrow> Inl e
         | Inr (encrypted, w') \<Rightarrow>
             Inr (\<lparr>r_encrypted = encrypted, r_fingerprint = fingerprint,
                   r_hash = quantumHash encrypted password\<rparr>, w'))"

text \<open>A read of \<open>encrypted[i]\<close> as an operand of \<open><<\<close>, \<open>|\<close> or \<open>^\<close>: past the end of the
  array the read gives \<open>undefined\<close>, which these operators take as 0.\<close>

definition int32_at :: "bytes \<Rightarrow> nat \<Rightarrow> 32 word" where
  "int32_at encrypted i = (if i < length encrypted then ucast (encrypted ! i) else 0)"

text \<open>\<open>(e[k] << 24) | (e[k+1] << 16) | (e[k+2] << 8) | e[k+3]\<close>: a signed 32-bit integer.\<close>

definition read_length :: "bytes \<Rightarrow> nat \<Rightarrow> int" where
  "read_length encrypted k =
     sint (push_bit 24 (int32_at encrypted k) OR push_bit 16 (int32_at encrypted (k + 1))
           OR push_bit 8 (int32_at encrypted (k + 2)) OR int32_at encrypted (k + 3))"

fun decrypt_loop ::
  "32 word list \<Rightarrow> bytes \<Rightarrow> nat \<Rightarrow> ('w, 'e) callback option \<Rightarrow> nat \<Rightarrow> bytes \<Rightarrow> 'w
   \<Rightarrow> 'e js_exn + bytes \<times> 'w" where
  "decrypt_loop [] encrypted compressedLength onProgress idx compressed w = Inr (compressed, w)"
| "decrypt_loop (keyByte # stream) encrypted compressedLength onProgress idx compressed w =
     (if idx \<ge> compressedLength then Inr (compressed, w)
      else let compressed = compressed[idx := ucast (int32_at encrypted (idx + 8) XOR keyByte)];
               idx = idx + 1
           in case onProgress of
                Some f \<Rightarrow>
                  if idx mod 1024 = 0
                  then (case f (ddiv (Fin (of_nat idx)) (Fin (of_nat compressedLength))) w of
                          Inl e \<Rightarrow> Inl (Thrown e)
                        | Inr w' \<Rightarrow> decrypt_loop stream encrypted compressedLength onProgress idx compressed w')
                  else decrypt_loop stream encrypted compressedLength onProgress idx compressed w
              | None \<Rightarrow> decrypt_loop stream encrypted compressedLength onProgress idx compressed w)"

text \<open>\<open>quantumDecrypt\<close> returns the plaintext or \<open>null\<close> (\<open>None\<close>); \<open>new Uint8Array\<close> throws
  a \<open>RangeError\<close> on a negative length.\<close>

definition quantumDecrypt ::
  "bytes \<Rightarrow> jsstring \<Rightarrow> string \<Rightarrow> string \<Rightarrow> ('w, 'e) callback option \<Rightarrow> 'w
   \<Rightarrow> 'e js_exn + bytes option \<times> 'w" where
  "quantumDecrypt encrypted password expectedFingerprint expectedHash onProgress w =
     (let fingerprint = generateEntropyFingerprint password
      in if fingerprint \<noteq> expectedFingerprint then Inr (None, w)
         else let hash = quantumHash encrypted password
              in if hash \<noteq> expectedHash then Inr (None, w)
                 else let originalLength = read_length encrypted 0;
                          compressedLength = read_length encrypted 4;
                          seed = generateEntropySeed password
                      in if compressedLength < 0 then Inl RangeError
                         else let compressed = replicate (nat compressedLength) 0;
                                  stream = entropyStream seed (nat compressedLength)
                              in case decrypt_loop stream encrypted (nat compressedLength)
                                        onProgress 0 compressed w of
                                   Inl e \<Rightarrow> Inl e
                                 | Inr (compressed, w') \<Rightarrow>
                                     let decompressed = quantumDecompress compressed
                                     in if int (length decompressed) \<noteq> originalLength
                                        then Inr (None, w')
                                        else Inr (Some decompressed, w'))"

section \<open>The seed derivation in the words of the specification\<close>

text \<open>
  The rolling hash as the specification words it, on mathematical integers: per character
  \<open>h = ((h << 5) - h + code) mod 2^32\<close> in two's complement, then \<open>h ^= h >> 16\<close>.  The
  right shift is a parameter: \<open>sar16\<close> is the arithmetic, sign-extending shift, \<open>shr16\<close> the
  logical shift of the 32-bit pattern.
\<close>

definition wrap32 :: "int \<Rightarrow> int" where
  "wrap32 n = (n + 2 ^ 31) mod 2 ^ 32 - 2 ^ 31"

definition shr16 :: "int \<Rightarrow> int" where
  "shr16 h = (h mod 2 ^ 32) div 2 ^ 16"

definition sar16 :: "int \<Rightarrow> int" where
  "sar16 h = h div 2 ^ 16"

definition spec_hash_round :: "(int \<Rightarrow> int) \<Rightarrow> int \<Rightarrow> int \<Rightarrow> int" where
  "spec_hash_round shift h code = (let h = wrap32 (h * 2 ^ 5 - h + code) in h XOR shift h)"

definition spec_clamp :: "double \<Rightarrow> double \<Rightarrow> double \<Rightarrow> double" where
  "spec_clamp x lo hi = (if dless x lo then lo else if dless hi x then hi else x)"

definition spec_derive_seed :: "(int \<Rightarrow> int) \<Rightarrow> jsstring \<Rightarrow> double" where
  "spec_derive_seed shift password =
     (let h = foldl (spec_hash_round shift) 0 (map uint password)
      in spec_clamp (ddiv (Fin (of_int \<bar>h\<bar>)) (Fin 2147483647)) (fl (1 / 10000)) (fl (9999 / 10000)))"

section \<open>The entropy stream and the fingerprint in the words of the specification\<close>

text \<open>
  The stream as the specification words it: the state starts at \<open>(seed, tent(seed))\<close>, both
  maps are updated 100 times without output, and the \<open>k\<close>-th byte is taken from the state
  after \<open>k + 1\<close> further updates as \<open>floor(((x + y) / 2) * 256) & 0xFF\<close>, truncating towards
  zero.  A byte is hex-encoded as two lowercase digits, the high one first.
\<close>

definition chaos_step :: "double \<times> double \<Rightarrow> double \<times> double" where
  "chaos_step s = (logisticMap (fst s) default_r, tentMap (snd s) default_mu)"

definition chaos_byte :: "double \<times> double \<Rightarrow> int" where
  "chaos_byte s =
     (case dmul (ddiv (dadd (fst s) (snd s)) (Fin 2)) (Fin 256) of
        Fin v \<Rightarrow> js_trunc v AND 0xFF
      | _ \<Rightarrow> 0)"

definition chaos_stream :: "double \<Rightarrow> nat \<Rightarrow> int list" where
  "chaos_stream seed count =
     map (\<lambda>k. chaos_byte ((chaos_step ^^ (100 + (k + 1))) (seed, tentMap seed default_mu)))
         [0..<count]"

definition hex_byte :: "int \<Rightarrow> string" where
  "hex_byte b = [hex_digit (nat b div 16), hex_digit (nat b mod 16)]"

section \<open>Auxiliary notions for the proofs\<close>

text \<open>The number a step of the generator computes before \<open>| 0\<close>, and the two ranges the
  state of the generator stays in.\<close>

definition yield_value :: "double \<times> double \<Rightarrow> double" where
  "yield_value s = dmul (ddiv (dadd (fst s) (snd s)) (Fin 2)) (Fin 256)"

definition in_unit :: "double \<times> double \<Rightarrow> bool" where
  "in_unit s = (\<exists>x y. s = (Fin x, Fin y) \<and> 0 \<le> x \<and> x \<le> 1 \<and> 0 \<le> y \<and> y \<le> 1)"

definition in_band :: "double \<times> double \<Rightarrow> bool" where
  "in_band s = (\<exists>x y. s = (Fin x, Fin y) \<and> 0 \<le> x \<and> x \<le> 998 / 1000 \<and> 0 \<le> y \<and> y \<le> 998 / 1000)"

text \<open>The byte the two loops store for a data byte and a key byte, the eight header
  bytes, and the container that \<open>quantumEncrypt\<close> builds from them.\<close>

definition xor_key :: "8 word \<Rightarrow> 32 word \<Rightarrow> 8 word" where
  "xor_key b keyByte = ucast (ucast b XOR keyByte)"

definition header :: "nat \<Rightarrow> nat \<Rightarrow> bytes" where
  "header n m = [length_byte n 24, length_byte n 16, length_byte n 8, length_byte n 0,
                 length_byte m 24, length_byte m 16, length_byte m 8, length_byte m 0]"

definition container :: "bytes \<Rightarrow> jsstring \<Rightarrow> bytes" where
  "container data password =
     (let compressed = quantumCompress data
      in header (length data) (length compressed)
         @ map2 xor_key compressed (entropyStream (generateEntropySeed password) (length compressed)))"

section \<open>Facts about rounding\<close>

lemma round_even_error: "\<bar>of_int (round_even x) - x\<bar> \<le> 1 / 2"
proof -
  have "of_int \<lfloor>x\<rfloor> \<le> x" "x < of_int \<lfloor>x\<rfloor> + 1" by linarith+
  then show ?thesis
    by (auto simp: round_even_def Let_def abs_le_iff)
qed

lemma round_even_nonneg: "0 \<le> x \<Longrightarrow> 0 \<le> round_even x"
  by (auto simp: round_even_def Let_def)

lemma ilog2_lower:
  assumes "0 < a"
  shows "2 powi (ilog2 a) \<le> a"
proof -
  obtain p q where pq: "quotient_of a = (p, q)" by (cases "quotient_of a")
  then have q: "0 < q" by (rule quotient_of_denom_pos)
  from pq have a: "a = of_int p / of_int q" by (rule quotient_of_div)
  with assms q have p: "0 < p" by (simp add: zero_less_divide_iff)
  define d where "d = bitlen p - bitlen q"
  show ?thesis
  proof (cases "2 powi d \<le> a")
    case True
    then show ?thesis by (simp add: ilog2_def pq d_def)
  next
    case False
    then have e: "ilog2 a = d - 1" by (simp add: ilog2_def pq d_def)
    have bp: "(2::int) ^ nat (bitlen p - 1) \<le> p" using bitlen_bounds [OF p] by simp
    have bq: "q < (2::int) ^ nat (bitlen q)" using bitlen_bounds [OF q] by simp
    have blp: "1 \<le> bitlen p" using p bitlen_eq_zero_iff [of p] bitlen_nonneg [of p] by linarith
    have blq: "0 \<le> bitlen q" by (rule bitlen_nonneg)
    have "(2::rat) powi (bitlen p - 1) = of_int (2 ^ nat (bitlen p - 1))"
      using blp by (simp add: power_int_def)
    also have "\<dots> \<le> of_int p" using bp by (simp only: of_int_le_iff)
    finally have 1: "(2::rat) powi (bitlen p - 1) \<le> of_int p" .
    have "of_int q < (of_int (2 ^ nat (bitlen q)) :: rat)" using bq by (simp only: of_int_less_iff)
    also have "\<dots> = 2 powi (bitlen q)" using blq by (simp add: power_int_def)
    finally have 2: "of_int q < (2::rat) powi (bitlen q)" .
    have "(2::rat) powi (d - 1) = 2 powi (bitlen p - 1) / 2 powi (bitlen q)"
      by (simp add: d_def power_int_diff)
    also have "\<dots> \<le> of_int p / 2 powi (bitlen q)"
      using 1 by (simp add: divide_right_mono)
    also have "\<dots> \<le> of_int p / of_int q"
      using 2 p q by (intro divide_left_mono) (simp_all add: less_imp_le)
    finally show ?thesis using e a by simp
  qed
qed

lemma two_powi_le_iff: "(2::rat) powi m \<le> 2 powi n \<longleftrightarrow> m \<le> n"
proof
  assume le: "(2::rat) powi m \<le> 2 powi n"
  show "m \<le> n"
  proof (rule ccontr)
    assume "\<not> m \<le> n"
    then have "(2::rat) powi n < 2 powi m" by (intro power_int_strict_increasing) simp_all
    with le show False by simp
  qed
next
  assume "m \<le> n"
  then show "(2::rat) powi m \<le> 2 powi n" by (intro power_int_increasing) simp_all
qed

lemma rnd_error_ulp:
  assumes "a \<noteq> 0"
  shows "\<bar>rnd a - a\<bar> \<le> 2 powi (max (ilog2 \<bar>a\<bar>) (- 1022) - 53)"
proof -
  define u :: rat where "u = 2 powi (max (ilog2 \<bar>a\<bar>) (- 1022) - 52)"
  define m where "m = round_even (\<bar>a\<bar> / u)"
  have u: "0 < u" by (simp add: u_def)
  have r: "rnd a = sgn a * of_int m * u"
    using assms by (simp add: rnd_def Let_def u_def m_def)
  have "\<bar>of_int m - \<bar>a\<bar> / u\<bar> \<le> 1 / 2" unfolding m_def by (rule round_even_error)
  then have "\<bar>of_int m - \<bar>a\<bar> / u\<bar> * u \<le> 1 / 2 * u"
    using u by (intro mult_right_mono) simp_all
  moreover have "\<bar>of_int m - \<bar>a\<bar> / u\<bar> * u = \<bar>of_int m * u - \<bar>a\<bar>\<bar>"
  proof -
    have "\<bar>of_int m - \<bar>a\<bar> / u\<bar> * u = \<bar>(of_int m - \<bar>a\<bar> / u) * u\<bar>"
      using u by (simp add: abs_mult)
    also have "(of_int m - \<bar>a\<bar> / u) * u = of_int m * u - \<bar>a\<bar>"
      using u by (simp add: field_simps)
    finally show ?thesis .
  qed
  moreover have "\<bar>rnd a - a\<bar> = \<bar>of_int m * u - \<bar>a\<bar>\<bar>"
  proof (cases "0 < a")
    case True
    then show ?thesis by (simp add: r)
  next
    case False
    with assms have "a < 0" by simp
    then have "rnd a - a = - (of_int m * u - \<bar>a\<bar>)" by (simp add: r)
    then show ?thesis by (simp only: abs_minus_cancel)
  qed
  moreover have "1 / 2 * u = 2 powi (max (ilog2 \<bar>a\<bar>) (- 1022) - 53)"
  proof -
    have "(2::rat) powi (max (ilog2 \<bar>a\<bar>) (- 1022) - 53)
          = 2 powi ((max (ilog2 \<bar>a\<bar>) (- 1022) - 52) - 1)" by (simp add: algebra_simps)
    also have "\<dots> = u / 2" unfolding u_def by (subst power_int_diff) simp_all
    finally show ?thesis by simp
  qed
  ultimately show ?thesis by simp
qed

lemma rnd_error:
  assumes "\<bar>a\<bar> \<le> 256"
  shows "\<bar>rnd a - a\<bar> \<le> 1 / 2 ^ 45"
proof (cases "a = 0")
  case True
  then show ?thesis by (simp add: rnd_def)
next
  case False
  then have pos: "0 < \<bar>a\<bar>" by simp
  have "(2::rat) powi (ilog2 \<bar>a\<bar>) \<le> 2 powi 8"
    using ilog2_lower [OF pos] assms by simp
  then have "ilog2 \<bar>a\<bar> \<le> 8" by (simp only: two_powi_le_iff)
  then have "max (ilog2 \<bar>a\<bar>) (- 1022) - 53 \<le> - 45" by simp
  then have "(2::rat) powi (max (ilog2 \<bar>a\<bar>) (- 1022) - 53) \<le> 2 powi (- 45)"
    by (simp only: two_powi_le_iff)
  also have "(2::rat) powi (- 45) = 1 / 2 ^ 45" by (simp add: power_int_minus_divide)
  finally show ?thesis using rnd_error_ulp [OF False] by simp
qed

lemma rnd_nonneg: "0 \<le> a \<Longrightarrow> 0 \<le> rnd a"
  by (simp add: rnd_def Let_def round_even_nonneg sgn_if)

lemma two_powi_1024_big: "(257::rat) < 2 powi 1024"
proof -
  have "(257::rat) < 2 powi 9" by simp
  also have "\<dots> \<le> 2 powi 1024" by (simp only: two_powi_le_iff)
  finally show ?thesis .
qed

lemma fl_small:
  assumes "\<bar>a\<bar> \<le> 256"
  shows "fl a = Fin (rnd a)"
proof -
  have "\<bar>rnd a - a\<bar> \<le> 1" using rnd_error [OF assms]
    by (rule order_trans) simp
  with assms have "\<bar>rnd a\<bar> \<le> 257" by (simp add: abs_le_iff)
  with two_powi_1024_big show ?thesis by (simp add: fl_def Let_def abs_le_iff del: power_int_numeral)
qed

section \<open>Facts about the seed\<close>

lemma rnd_upper:
  assumes "\<bar>a\<bar> \<le> 256"
  shows "rnd a \<le> a + 1 / 2 ^ 45"
proof -
  have "rnd a - a \<le> \<bar>rnd a - a\<bar>" by (rule abs_ge_self)
  also have "\<dots> \<le> 1 / 2 ^ 45" by (rule rnd_error [OF assms])
  finally show ?thesis by linarith
qed

lemma rnd_lower:
  assumes "\<bar>a\<bar> \<le> 256"
  shows "a - 1 / 2 ^ 45 \<le> rnd a"
proof -
  have "a - rnd a \<le> \<bar>rnd a - a\<bar>" by (simp only: abs_minus_commute abs_ge_self)
  also have "\<dots> \<le> 1 / 2 ^ 45" by (rule rnd_error [OF assms])
  finally show ?thesis by linarith
qed

lemma Math_min_Fin: "Math_min (Fin a) (Fin b) = Fin (min a b)"
  by (simp add: Math_min_def min_def)

lemma Math_max_Fin: "Math_max (Fin a) (Fin b) = Fin (max a b)"
  by (simp add: Math_max_def max_def)

lemma abs_sint32_le: "\<bar>sint (h :: 32 word)\<bar> \<le> 2147483648"
  using sint_range_size [of h] by (simp add: word_size abs_le_iff)

lemma normalized_small:
  "\<bar>(of_int \<bar>sint (h :: 32 word)\<bar> :: rat) / 2147483647\<bar> \<le> 256"
proof -
  have "(of_int \<bar>sint h\<bar> :: rat) \<le> of_int 2147483648"
    using abs_sint32_le [of h] by (simp only: of_int_le_iff)
  then show ?thesis by (simp add: abs_le_iff)
qed

lemma generateEntropySeed_Fin:
  "generateEntropySeed password =
   Fin (max (rnd (1 / 10000))
            (min (rnd (9999 / 10000))
                 (rnd (of_int \<bar>sint (foldl hash_char 0 password)\<bar> / 2147483647))))"
proof -
  have 1: "fl (1 / 10000) = Fin (rnd (1 / 10000))" by (rule fl_small) simp
  have 2: "fl (9999 / 10000) = Fin (rnd (9999 / 10000))" by (rule fl_small) simp
  have "ddiv (Fin (of_int \<bar>sint (foldl hash_char 0 password)\<bar>)) (Fin 2147483647) =
        fl (of_int \<bar>sint (foldl hash_char 0 password)\<bar> / 2147483647)"
    by (subst ddiv.simps) (simp only: if_False numeral_neq_zero)
  then have 3: "ddiv (Fin (of_int \<bar>sint (foldl hash_char 0 password)\<bar>)) (Fin 2147483647) =
        Fin (rnd (of_int \<bar>sint (foldl hash_char 0 password)\<bar> / 2147483647))"
    by (simp only: fl_small [OF normalized_small])
  show ?thesis
    by (simp only: generateEntropySeed_def Let_def 1 2 3 Math_min_Fin Math_max_Fin)
qed

lemma seed_lo_bounds: "1 / 10000 - 1 / 2 ^ 45 \<le> rnd (1 / 10000)" "rnd (1 / 10000) \<le> 1 / 10000 + 1 / 2 ^ 45"
  using rnd_lower [of "1 / 10000"] rnd_upper [of "1 / 10000"] by simp_all

lemma seed_hi_bounds: "9999 / 10000 - 1 / 2 ^ 45 \<le> rnd (9999 / 10000)"
  "rnd (9999 / 10000) \<le> 9999 / 10000 + 1 / 2 ^ 45"
  using rnd_lower [of "9999 / 10000"] rnd_upper [of "9999 / 10000"] by simp_all

lemma normalized_not_half:
  fixes n :: int
  assumes "0 \<le> n" "n \<le> 2147483648"
  shows "rnd (of_int n / 2147483647) \<noteq> 1 / 2"
proof (cases "n \<le> 1073741823")
  case True
  then have "(of_int n :: rat) \<le> of_int 1073741823" by (simp only: of_int_le_iff)
  then have a: "(of_int n :: rat) / 2147483647 \<le> 1073741823 / 2147483647"
    by (simp add: divide_right_mono)
  have "0 \<le> (of_int n :: rat)" using assms by simp
  then have "\<bar>(of_int n :: rat) / 2147483647\<bar> \<le> 256" using a by (simp add: abs_le_iff)
  from rnd_upper [OF this] a have "rnd (of_int n / 2147483647) < 1 / 2" by simp
  then show ?thesis by simp
next
  case False
  then have "1073741824 \<le> n" by simp
  then have "(of_int 1073741824 :: rat) \<le> of_int n" by (simp only: of_int_le_iff)
  then have a: "(1073741824 :: rat) / 2147483647 \<le> of_int n / 2147483647"
    by (simp add: divide_right_mono)
  have "(of_int n :: rat) \<le> of_int 2147483648" using assms by (simp only: of_int_le_iff)
  then have "\<bar>(of_int n :: rat) / 2147483647\<bar> \<le> 256" using a by (simp add: abs_le_iff)
  from rnd_lower [OF this] a have "1 / 2 < rnd (of_int n / 2147483647)" by simp
  then show ?thesis by simp
qed


lemma sint_word_of_int32: "sint (word_of_int k :: 32 word) = wrap32 k"
  by (simp add: wrap32_def sint_sbintrunc' signed_take_bit_eq_take_bit_shift take_bit_eq_mod)

lemma hash_sum: "(push_bit 5 w - w + ucast c :: 32 word) = word_of_int (sint w * 2 ^ 5 - sint w + uint (c :: 16 word))"
  by (simp add: push_bit_eq_mult)

lemma uint_sint32: "uint (w :: 32 word) = sint w mod 2 ^ 32"
  by (simp add: uint_sint take_bit_eq_mod)

lemma sint_drop16: "sint (drop_bit 16 (w :: 32 word)) = (sint w mod 2 ^ 32) div 2 ^ 16"
proof -
  have "sint (drop_bit 16 w) = drop_bit 16 (take_bit 32 (sint w))"
  proof (rule bit_eqI)
    fix n
    show "bit (sint (drop_bit 16 w)) n = bit (drop_bit 16 (take_bit 32 (sint w))) n"
    proof (cases "n < 16")
      case True
      show ?thesis
      proof (cases "n = 15")
        case True
        then show ?thesis by (simp add: bit_simps)
      next
        case False
        with \<open>n < 16\<close> have "n < 15" by simp
        then show ?thesis by (simp add: bit_simps min_def)
      qed
    next
      case False
      then have "\<not> bit w (16 + min 31 n)" "\<not> bit w 47"
        by (auto dest: bit_imp_le_length)
      with False show ?thesis by (simp add: bit_simps)
    qed
  qed
  then show ?thesis by (simp add: take_bit_eq_mod drop_bit_eq_div)
qed

lemma sint_xor32: "sint (a XOR b :: 32 word) = sint a XOR sint b"
  by (rule signed_xor_eq)


lemma sint_hash_char: "sint (hash_char h c) = spec_hash_round shr16 (sint h) (uint c)"
  by (simp only: hash_char_def spec_hash_round_def Let_def hash_sum sint_xor32 sint_drop16
      sint_word_of_int32 shr16_def)

lemma sint_foldl_hash_char:
  "sint (foldl hash_char h password) = foldl (spec_hash_round shr16) (sint h) (map uint password)"
  by (induction password arbitrary: h) (simp_all add: sint_hash_char)

lemma h1: "foldl hash_char 0 [0x61, 0x62, 0x63, 0x64, 0x65, 0x66] = (0xAB19B8F0 :: 32 word)"
  by (simp add: hash_char_def Let_def)

lemma h1s: "sint (0xAB19B8F0 :: 32 word) = - 1424377616"
  by simp

lemma h2: "foldl (spec_hash_round sar16) 0 (map uint [0x61, 0x62, 0x63, 0x64, 0x65, 0x66 :: 16 word]) = 1424406768"
  by (simp add: spec_hash_round_def sar16_def wrap32_def Let_def)


lemma Fin_clamp: "lo \<le> hi \<Longrightarrow> spec_clamp (Fin v) (Fin lo) (Fin hi) = Fin (max lo (min hi v))"
  by (simp add: spec_clamp_def max_def min_def)

lemma seed_lo_le_hi: "rnd (1 / 10000) \<le> rnd (9999 / 10000)"
  using seed_lo_bounds(2) seed_hi_bounds(1) by simp

lemma ddiv_Fin_small:
  assumes "b \<noteq> 0" and "\<bar>a / b\<bar> \<le> 256"
  shows "ddiv (Fin a) (Fin b) = Fin (rnd (a / b))"
  using assms(1) fl_small [OF assms(2)] by simp

lemma spec_derive_seed_sint:
  assumes "foldl (spec_hash_round shift) 0 (map uint password) = sint (h :: 32 word)"
  shows "spec_derive_seed shift password =
         Fin (max (rnd (1 / 10000))
                  (min (rnd (9999 / 10000)) (rnd (of_int \<bar>sint h\<bar> / 2147483647))))"
proof -
  have 1: "fl (1 / 10000) = Fin (rnd (1 / 10000))" by (rule fl_small) simp
  have 2: "fl (9999 / 10000) = Fin (rnd (9999 / 10000))" by (rule fl_small) simp
  have 3: "ddiv (Fin (of_int \<bar>sint h\<bar>)) (Fin 2147483647) =
           Fin (rnd (of_int \<bar>sint h\<bar> / 2147483647))"
    by (rule ddiv_Fin_small [OF _ normalized_small]) simp
  show ?thesis
    by (simp only: spec_derive_seed_def Let_def assms 1 2 3 Fin_clamp [OF seed_lo_le_hi])
qed


section \<open>Facts about the chaotic maps and the stream\<close>

lemma rnd_upper6:
  assumes "\<bar>a\<bar> \<le> 256"
  shows "rnd a \<le> a + 1 / 1000000"
proof -
  have "(1::rat) / 2 ^ 45 \<le> 1 / 1000000" by simp
  with rnd_upper [OF assms] show ?thesis by linarith
qed

lemma dmul_Fin_small: "\<bar>a * b\<bar> \<le> 256 \<Longrightarrow> dmul (Fin a) (Fin b) = Fin (rnd (a * b))"
  by (simp add: fl_small)

lemma dadd_Fin_small: "\<bar>a + b\<bar> \<le> 256 \<Longrightarrow> dadd (Fin a) (Fin b) = Fin (rnd (a + b))"
  by (simp add: fl_small)

lemma dsub_Fin_small: "\<bar>a - b\<bar> \<le> 256 \<Longrightarrow> dsub (Fin a) (Fin b) = Fin (rnd (a - b))"
  by (simp add: dsub_def fl_small)

lemma default_r_Fin: "default_r = Fin (rnd (399 / 100))"
  unfolding default_r_def by (rule fl_small) simp

lemma default_mu_Fin: "default_mu = Fin (rnd (199 / 100))"
  unfolding default_mu_def by (rule fl_small) simp

lemma r_bounds: "0 \<le> rnd (399 / 100)" "rnd (399 / 100) \<le> 3991 / 1000"
  using rnd_nonneg [of "399 / 100"] rnd_upper6 [of "399 / 100"] by simp_all

lemma mu_bounds: "0 \<le> rnd (199 / 100)" "rnd (199 / 100) \<le> 1991 / 1000"
  using rnd_nonneg [of "199 / 100"] rnd_upper6 [of "199 / 100"] by simp_all

lemma logisticMap_range:
  assumes "0 \<le> x" "x \<le> 1"
  shows "\<exists>x'. logisticMap (Fin x) default_r = Fin x' \<and> 0 \<le> x' \<and> x' \<le> 998 / 1000"
proof -
  define r where "r = rnd (399 / 100)"
  define p where "p = r * x"
  define t1 where "t1 = rnd p"
  define t2 where "t2 = rnd (1 - x)"
  have r: "0 \<le> r" "r \<le> 3991 / 1000" unfolding r_def by (rule r_bounds)+
  have p0: "0 \<le> p" unfolding p_def using r(1) assms(1) by simp
  have pr: "p \<le> r" unfolding p_def using r(1) assms(2) by (simp add: mult_left_le)
  have psmall: "\<bar>p\<bar> \<le> 256" using p0 pr r(2) by simp
  have qsmall: "\<bar>1 - x\<bar> \<le> 256" using assms by simp
  have t1: "0 \<le> t1" "t1 \<le> p + 1 / 1000000"
    unfolding t1_def using rnd_nonneg [OF p0] rnd_upper6 [OF psmall] by simp_all
  have t2: "0 \<le> t2" "t2 \<le> 1 - x + 1 / 1000000"
    unfolding t2_def using rnd_nonneg [of "1 - x"] rnd_upper6 [OF qsmall] assms by simp_all
  define e :: rat where "e = 1 / 1000000"
  define q where "q = r * (x * (1 - x))"
  define w where "w = t1 * t2"
  have "w \<le> (p + e) * (1 - x + e)"
    using t1 t2 p0 unfolding e_def w_def by (intro mult_mono) simp_all
  also have "\<dots> = q + p * e + e * (1 - x) + e * e"
    unfolding p_def q_def by (simp add: algebra_simps)
  finally have prod: "w \<le> q + p / 1000000 + (1 - x) / 1000000 + 1 / 1000000000000"
    unfolding e_def by simp
  have "x * (1 - x) \<le> 1 / 4"
    using zero_le_power2 [of "x - 1 / 2"] by (simp add: power2_eq_square algebra_simps)
  then have "r * (x * (1 - x)) \<le> r * (1 / 4)" using r(1) by (rule mult_left_mono)
  then have "q \<le> r / 4" unfolding q_def by simp
  with prod pr r(2) assms have "w \<le> 9979 / 10000" by (simp add: field_simps)
  then have ub: "t1 * t2 \<le> 9979 / 10000" unfolding w_def .
  have nn: "0 \<le> t1 * t2" using t1(1) t2(1) by simp
  have tsmall: "\<bar>t1 * t2\<bar> \<le> 256" using nn ub by simp
  have "logisticMap (Fin x) default_r = Fin (rnd (t1 * t2))"
    unfolding logisticMap_def default_r_Fin
    using psmall qsmall tsmall
    by (simp only: dmul_Fin_small dsub_Fin_small r_def [symmetric] p_def [symmetric]
        t1_def [symmetric] t2_def [symmetric])
  moreover have "0 \<le> rnd (t1 * t2)" using nn by (rule rnd_nonneg)
  moreover have "rnd (t1 * t2) \<le> 998 / 1000" using rnd_upper6 [OF tsmall] ub by simp
  ultimately show ?thesis by blast
qed


lemma tentMap_range:
  assumes "0 \<le> y" "y \<le> 1"
  shows "\<exists>y'. tentMap (Fin y) default_mu = Fin y' \<and> 0 \<le> y' \<and> y' \<le> 998 / 1000"
proof -
  define m where "m = rnd (199 / 100)"
  have m: "0 \<le> m" "m \<le> 1991 / 1000" unfolding m_def by (rule mu_bounds)+
  show ?thesis
  proof (cases "y < 1 / 2")
    case True
    define p where "p = m * y"
    have p0: "0 \<le> p" unfolding p_def using m(1) assms(1) by simp
    have "m * y \<le> m * (1 / 2)" using True m(1) by (intro mult_left_mono) simp_all
    then have pu: "p \<le> 9955 / 10000" unfolding p_def using m(2) by (simp add: field_simps)
    have psmall: "\<bar>p\<bar> \<le> 256" using p0 pu by simp
    have "tentMap (Fin y) default_mu = Fin (rnd p)"
      unfolding tentMap_def default_mu_Fin using True psmall
      by (simp add: fl_small m_def [symmetric] p_def [symmetric])
    moreover have "0 \<le> rnd p" using p0 by (rule rnd_nonneg)
    moreover have "rnd p \<le> 998 / 1000" using rnd_upper6 [OF psmall] pu by (simp add: field_simps)
    ultimately show ?thesis by blast
  next
    case False
    define t where "t = rnd (1 - y)"
    define p where "p = m * t"
    have qsmall: "\<bar>1 - y\<bar> \<le> 256" using assms by simp
    have t: "0 \<le> t" "t \<le> 500001 / 1000000"
      unfolding t_def using rnd_nonneg [of "1 - y"] rnd_upper6 [OF qsmall] assms False
      by (simp_all add: field_simps)
    have p0: "0 \<le> p" unfolding p_def using m(1) t(1) by simp
    have "m * t \<le> m * (500001 / 1000000)" using t(2) m(1) by (rule mult_left_mono)
    also have "\<dots> \<le> (1991 / 1000) * (500001 / 1000000)" using m(2) by (intro mult_right_mono) simp_all
    finally have pu: "p \<le> 9956 / 10000" unfolding p_def by simp
    have psmall: "\<bar>p\<bar> \<le> 256" using p0 pu by simp
    have "tentMap (Fin y) default_mu = Fin (rnd p)"
      unfolding tentMap_def default_mu_Fin using False psmall qsmall
      by (simp add: fl_small dsub_Fin_small m_def [symmetric] t_def [symmetric] p_def [symmetric])
    moreover have "0 \<le> rnd p" using p0 by (rule rnd_nonneg)
    moreover have "rnd p \<le> 998 / 1000" using rnd_upper6 [OF psmall] pu by (simp add: field_simps)
    ultimately show ?thesis by blast
  qed
qed

text \<open>The number a step of the generator yields, before \<open>| 0\<close>.\<close>

lemma yield_value_range:
  assumes "0 \<le> x" "x \<le> 998 / 1000" "0 \<le> y" "y \<le> 998 / 1000"
  shows "\<exists>v. dmul (ddiv (dadd (Fin x) (Fin y)) (Fin 2)) (Fin 256) = Fin v \<and> 0 \<le> v \<and> v < 256"
proof -
  define s where "s = rnd (x + y)"
  define h where "h = rnd (s / 2)"
  define v where "v = rnd (h * 256)"
  have a: "\<bar>x + y\<bar> \<le> 256" using assms by simp
  have s: "0 \<le> s" "s \<le> 1996001 / 1000000"
    unfolding s_def using rnd_nonneg [of "x + y"] rnd_upper6 [OF a] assms by (simp_all add: field_simps)
  have b: "\<bar>s / 2\<bar> \<le> 256" using s by simp
  have h: "0 \<le> h" "h \<le> 998002 / 1000000"
    unfolding h_def using rnd_nonneg [of "s / 2"] rnd_upper6 [OF b] s by (simp_all add: field_simps)
  have c: "\<bar>h * 256\<bar> \<le> 256" using h by (simp add: field_simps)
  have v: "0 \<le> v" "v < 256"
    unfolding v_def using rnd_nonneg [of "h * 256"] rnd_upper6 [OF c] h by (simp_all add: field_simps)
  have "dadd (Fin x) (Fin y) = Fin s" unfolding s_def using a by (rule dadd_Fin_small)
  moreover have "ddiv (Fin s) (Fin 2) = Fin h" unfolding h_def using b by (intro ddiv_Fin_small) simp_all
  moreover have "dmul (Fin h) (Fin 256) = Fin v" unfolding v_def using c by (rule dmul_Fin_small)
  ultimately show ?thesis using v by simp
qed

lemma in_band_unit: "in_band s \<Longrightarrow> in_unit s"
  by (auto simp: in_band_def in_unit_def)

lemma chaos_step_band: "in_unit s \<Longrightarrow> in_band (chaos_step s)"
proof -
  assume "in_unit s"
  then obtain x y where s: "s = (Fin x, Fin y)" and x: "0 \<le> x" "x \<le> 1" and y: "0 \<le> y" "y \<le> 1"
    by (auto simp: in_unit_def)
  from logisticMap_range [OF x] obtain x' where
    "logisticMap (Fin x) default_r = Fin x'" "0 \<le> x'" "x' \<le> 998 / 1000" by blast
  moreover from tentMap_range [OF y] obtain y' where
    "tentMap (Fin y) default_mu = Fin y'" "0 \<le> y'" "y' \<le> 998 / 1000" by blast
  ultimately show ?thesis by (simp add: in_band_def chaos_step_def s)
qed

lemma chaos_funpow_band: "in_unit s \<Longrightarrow> in_band ((chaos_step ^^ Suc k) s)"
proof (induction k)
  case 0
  then show ?case by (simp add: chaos_step_band)
next
  case (Suc k)
  then have "in_unit ((chaos_step ^^ Suc k) s)" by (intro in_band_unit) simp
  then have "in_band (chaos_step ((chaos_step ^^ Suc k) s))" by (rule chaos_step_band)
  then show ?case by simp
qed

lemma seed_start_unit:
  assumes "0 \<le> s" "s \<le> 1"
  shows "in_unit (Fin s, tentMap (Fin s) default_mu)"
proof -
  from tentMap_range [OF assms] obtain y' where
    "tentMap (Fin s) default_mu = Fin y'" "0 \<le> y'" "y' \<le> 998 / 1000" by blast
  with assms show ?thesis by (simp add: in_unit_def)
qed

lemma burn_in_funpow: "burn_in n x y = (chaos_step ^^ n) (x, y)"
proof (induction n arbitrary: x y)
  case 0
  show ?case by simp
next
  case (Suc n)
  have "burn_in (Suc n) x y = (chaos_step ^^ n) (logisticMap x default_r, tentMap y default_mu)"
    by (simp only: burn_in.simps Suc)
  also have "(logisticMap x default_r, tentMap y default_mu) = chaos_step (x, y)"
    by (simp only: chaos_step_def fst_conv snd_conv)
  also have "(chaos_step ^^ n) (chaos_step (x, y)) = (chaos_step ^^ Suc n) (x, y)"
    by (simp only: funpow_Suc_right o_apply)
  finally show ?case .
qed

lemma yield_loop_map:
  "yield_loop n x y = map (\<lambda>k. to_int32 (yield_value ((chaos_step ^^ Suc k) (x, y)))) [0..<n]"
proof (induction n arbitrary: x y)
  case 0
  show ?case by simp
next
  case (Suc n)
  let ?s = "chaos_step (x, y)"
  have s: "?s = (logisticMap x default_r, tentMap y default_mu)"
    by (simp only: chaos_step_def fst_conv snd_conv)
  have "yield_loop (Suc n) x y =
        to_int32 (yield_value ?s) # yield_loop n (logisticMap x default_r) (tentMap y default_mu)"
    by (simp only: yield_loop.simps Let_def s yield_value_def fst_conv snd_conv)
  also have "yield_loop n (logisticMap x default_r) (tentMap y default_mu) =
             map (\<lambda>k. to_int32 (yield_value ((chaos_step ^^ Suc k) ?s))) [0..<n]"
    by (simp only: Suc s)
  also have "\<dots> = map (\<lambda>k. to_int32 (yield_value ((chaos_step ^^ Suc (Suc k)) (x, y)))) [0..<n]"
    by (simp only: funpow_Suc_right o_apply)
  also have "yield_value ?s = yield_value ((chaos_step ^^ Suc 0) (x, y))"
    by simp
  finally show ?case by (simp only: map_upt_Suc)
qed

lemma length_yield_loop: "length (yield_loop n x y) = n"
  by (simp add: yield_loop_map)

lemma length_entropyStream: "length (entropyStream seed n) = n"
  by (simp add: entropyStream_def Let_def length_yield_loop split: prod.split)

lemma entropyStream_map:
  "entropyStream seed n =
   map (\<lambda>k. to_int32 (yield_value ((chaos_step ^^ (100 + (k + 1))) (seed, tentMap seed default_mu))))
       [0..<n]"
proof -
  have "entropyStream seed n =
        yield_loop n (fst (burn_in 100 seed (tentMap seed default_mu)))
                     (snd (burn_in 100 seed (tentMap seed default_mu)))"
    by (simp add: entropyStream_def Let_def split_beta)
  also have "\<dots> = map (\<lambda>k. to_int32 (yield_value ((chaos_step ^^ Suc k)
               ((chaos_step ^^ 100) (seed, tentMap seed default_mu))))) [0..<n]"
    by (simp only: yield_loop_map prod.collapse burn_in_funpow)
  also have "\<dots> = map (\<lambda>k. to_int32 (yield_value ((chaos_step ^^ (100 + (k + 1))) (seed, tentMap seed default_mu))))
       [0..<n]"
    by (simp only: funpow_add o_apply Suc_eq_plus1 add.commute [of 100])
  finally show ?thesis .
qed

lemma sint_to_int32_band:
  assumes "in_band s"
  shows "sint (to_int32 (yield_value s)) = chaos_byte s"
    and "0 \<le> sint (to_int32 (yield_value s))" and "sint (to_int32 (yield_value s)) \<le> 255"
proof -
  from assms obtain x y where s: "s = (Fin x, Fin y)"
    and b: "0 \<le> x" "x \<le> 998 / 1000" "0 \<le> y" "y \<le> 998 / 1000"
    by (auto simp: in_band_def)
  from yield_value_range [OF b] obtain v where
    v: "yield_value s = Fin v" "0 \<le> v" "v < 256" by (auto simp: yield_value_def s)
  define k where "k = \<lfloor>v\<rfloor>"
  have k: "0 \<le> k" "k \<le> 255" unfolding k_def using v(2,3) by (simp_all add: floor_less_iff le_floor_iff)
  have t: "js_trunc v = k" using v(2) by (simp add: js_trunc_def k_def)
  have "sint (word_of_int k :: 32 word) = k"
    using k by (simp add: sint_word_of_int32 wrap32_def)
  then have sk: "sint (to_int32 (yield_value s)) = k" by (simp add: v(1) t)
  have "k AND 255 = k"
  proof -
    have "k AND 255 = take_bit 8 k" by (simp add: take_bit_eq_mask mask_eq_exp_minus_1)
    then show ?thesis using k by (simp add: take_bit_eq_mod)
  qed
  then have "chaos_byte s = k" using v(1) by (simp add: chaos_byte_def yield_value_def [symmetric] t)
  with sk show "sint (to_int32 (yield_value s)) = chaos_byte s" by simp
  from sk k show "0 \<le> sint (to_int32 (yield_value s))" "sint (to_int32 (yield_value s)) \<le> 255"
    by simp_all
qed

lemma generateEntropySeed_range:
  "\<exists>s. generateEntropySeed password = Fin s \<and> rnd (1 / 10000) \<le> s \<and> s \<le> rnd (9999 / 10000)"
  using seed_lo_bounds seed_hi_bounds by (simp add: generateEntropySeed_Fin)

lemma entropyStream_unit:
  assumes "0 \<le> s" "s \<le> 1"
  shows "map sint (entropyStream (Fin s) n) = chaos_stream (Fin s) n"
    and "list_all (\<lambda>b. 0 \<le> b \<and> b \<le> 255) (map sint (entropyStream (Fin s) n))"
proof -
  let ?st = "\<lambda>k. (chaos_step ^^ (100 + (k + 1))) (Fin s, tentMap (Fin s) default_mu)"
  have band: "in_band (?st k)" for k
    using chaos_funpow_band [OF seed_start_unit [OF assms], of "100 + k"] by simp
  have m: "map sint (entropyStream (Fin s) n) = map (\<lambda>k. sint (to_int32 (yield_value (?st k)))) [0..<n]"
    by (simp only: entropyStream_map map_map o_def)
  show "map sint (entropyStream (Fin s) n) = chaos_stream (Fin s) n"
    by (simp only: m sint_to_int32_band(1) [OF band] chaos_stream_def)
  have "0 \<le> sint (to_int32 (yield_value (?st k))) \<and> sint (to_int32 (yield_value (?st k))) \<le> 255" for k
    using sint_to_int32_band(2,3) [OF band] by blast
  then show "list_all (\<lambda>b. 0 \<le> b \<and> b \<le> 255) (map sint (entropyStream (Fin s) n))"
    unfolding m list_all_iff by auto
qed

lemma fl_lo: "fl (1 / 10000) = Fin (rnd (1 / 10000))"
  by (rule fl_small) simp

lemma fl_hi: "fl (9999 / 10000) = Fin (rnd (9999 / 10000))"
  by (rule fl_small) simp

lemma seed_range_unit:
  assumes "rnd (1 / 10000) \<le> s" "s \<le> rnd (9999 / 10000)"
  shows "0 \<le> s" "s \<le> 1"
  using assms seed_lo_bounds(1) seed_hi_bounds(2) by simp_all

lemma hex_digits_small: "n < 16 \<Longrightarrow> hex_digits n = [hex_digit n]"
  by (simp add: hex_digits.simps [of n])

lemma hex_digits_byte: "16 \<le> n \<Longrightarrow> n < 256 \<Longrightarrow> hex_digits n = [hex_digit (n div 16), hex_digit (n mod 16)]"
  by (subst hex_digits.simps) (simp add: hex_digits_small)

lemma hex_digit_0: "hex_digit 0 = CHR ''0''"
  by (simp add: hex_digit_def)

lemma padStart2_toString16:
  assumes "0 \<le> b" "b \<le> 255"
  shows "padStart2 (toString16 b) = hex_byte b"
proof (cases "nat b < 16")
  case True
  with assms show ?thesis
    by (simp add: toString16_def padStart2_def hex_byte_def hex_digits_small hex_digit_0)
next
  case False
  with assms have "16 \<le> nat b" "nat b < 256" by simp_all
  with assms show ?thesis
    by (simp add: toString16_def padStart2_def hex_byte_def hex_digits_byte)
qed

lemma hex_digits_lower: "list_all (\<lambda>d. hex_digit d \<in> set ''0123456789abcdef'') [0..<16]"
  by code_simp

lemma hex_digit_lower: "d < 16 \<Longrightarrow> hex_digit d \<in> set ''0123456789abcdef''"
  using hex_digits_lower unfolding list_all_iff by (simp del: set_simps)

lemma hex_byte_lower:
  assumes "0 \<le> b" "b \<le> 255"
  shows "list_all (\<lambda>c. c \<in> set ''0123456789abcdef'') (hex_byte b)"
proof -
  have "nat b div 16 < 16" using assms by simp
  moreover have "nat b mod 16 < 16" by simp
  ultimately show ?thesis unfolding hex_byte_def
    using hex_digit_lower by (simp del: set_simps)
qed

lemma concat_hex_bytes:
  assumes "list_all (\<lambda>b. 0 \<le> b \<and> b \<le> 255) bs"
  shows "concat (map (\<lambda>b. padStart2 (toString16 b)) bs) = concat (map hex_byte bs)"
    and "length (concat (map hex_byte bs)) = 2 * length bs"
    and "list_all (\<lambda>c. c \<in> set ''0123456789abcdef'') (concat (map hex_byte bs))"
  using assms
proof (induction bs)
  case Nil
  { case 1 show ?case by simp next
    case 2 show ?case by simp next
    case 3 show ?case by simp }
next
  case (Cons b bs)
  { case 1 then show ?case using Cons(1) by (simp add: padStart2_toString16) next
    case 2 then show ?case using Cons(2) by (simp add: hex_byte_def) next
    case 3 then show ?case using Cons(3) hex_byte_lower [of b] by (simp del: set_simps) }
qed


section \<open>Facts about the codec\<close>

lemma run_length_le: "runLength \<le> 255 \<Longrightarrow> run_length data i runLength \<le> 255"
proof (induction data i runLength rule: run_length.induct)
  case (1 data i runLength)
  show ?case
  proof (cases "i + runLength < length data \<and> data ! i = data ! (i + runLength) \<and> runLength < 255")
    case True
    with 1 have "run_length data i (runLength + 1) \<le> 255" by simp
    then show ?thesis by (simp add: run_length_step [OF True])
  next
    case False
    with 1 show ?thesis by (simp add: run_length_stop)
  qed
qed

lemma run_length_inside:
  "i + runLength \<le> length data \<Longrightarrow> i + run_length data i runLength \<le> length data"
proof (induction data i runLength rule: run_length.induct)
  case (1 data i runLength)
  show ?case
  proof (cases "i + runLength < length data \<and> data ! i = data ! (i + runLength) \<and> runLength < 255")
    case True
    with 1 have "i + run_length data i (runLength + 1) \<le> length data" by simp
    then show ?thesis by (simp add: run_length_step [OF True])
  next
    case False
    with 1 show ?thesis by (simp add: run_length_stop)
  qed
qed

lemma run_length_same:
  "(\<And>k. k < runLength \<Longrightarrow> data ! (i + k) = data ! i) \<Longrightarrow>
   k < run_length data i runLength \<Longrightarrow> data ! (i + k) = data ! i"
proof (induction data i runLength rule: run_length.induct)
  case (1 data i runLength)
  show ?case
  proof (cases "i + runLength < length data \<and> data ! i = data ! (i + runLength) \<and> runLength < 255")
    case True
    have "\<And>j. j < runLength + 1 \<Longrightarrow> data ! (i + j) = data ! i"
    proof -
      fix j assume "j < runLength + 1"
      then have "j < runLength \<or> j = runLength" by arith
      then show "data ! (i + j) = data ! i" using True "1.prems"(1) by auto
    qed
    moreover from "1.prems"(2) have "k < run_length data i (runLength + 1)"
      by (simp add: run_length_step [OF True])
    ultimately show ?thesis using "1.IH" True by blast
  next
    case False
    with "1.prems" show ?thesis by (simp add: run_length_stop)
  qed
qed

lemma decompress_loop_end: "\<not> i < length data \<Longrightarrow> decompress_loop data i result = result"
  by (simp add: decompress_loop.simps [of data i])

lemma decompress_loop_token:
  "i + 2 < length data \<Longrightarrow> data ! i = 0xFE \<Longrightarrow>
   decompress_loop data i result =
   decompress_loop data (i + 3) (result @ replicate (unat (data ! (i + 1))) (data ! (i + 2)))"
  by (simp add: decompress_loop.simps [of data i])

lemma decompress_loop_literal:
  assumes "i < length data" and "\<not> (data ! i = 0xFE \<and> i + 2 < length data)"
  shows "decompress_loop data i result = decompress_loop data (i + 1) (result @ [data ! i])"
  by (subst decompress_loop.simps) (simp only: assms if_True if_False)

lemma decompress_loop_acc:
  "decompress_loop data i result = result @ decompress_loop data i []"
proof (induction "length data - i" arbitrary: i result rule: less_induct)
  case less
  show ?case
  proof (cases "i < length data")
    case False
    then show ?thesis by (simp add: decompress_loop_end)
  next
    case inb: True
    show ?thesis
    proof (cases "data ! i = 0xFE \<and> i + 2 < length data")
      case True
      have smaller: "length data - (i + 3) < length data - i" using inb by arith
      show ?thesis
        using True less [OF smaller, of "result @ replicate (unat (data ! (i + 1))) (data ! (i + 2))"]
          less [OF smaller, of "replicate (unat (data ! (i + 1))) (data ! (i + 2))"]
        by (simp add: decompress_loop_token)
    next
      case False
      have smaller: "length data - (i + 1) < length data - i" using inb by arith
      show ?thesis
        using less [OF smaller, of "result @ [data ! i]"] less [OF smaller, of "[data ! i]"]
        by (simp add: decompress_loop_literal [OF inb False])
    qed
  qed
qed

lemma decompress_loop_shift:
  "decompress_loop (pre @ data) (length pre + i) result = decompress_loop data i result"
proof (induction "length data - i" arbitrary: i result rule: less_induct)
  case less
  show ?case
  proof (cases "i < length data")
    case False
    then show ?thesis by (simp add: decompress_loop_end)
  next
    case inb: True
    show ?thesis
    proof (cases "data ! i = 0xFE \<and> i + 2 < length data")
      case True
      have smaller: "length data - (i + 3) < length data - i" using inb by arith
      have "decompress_loop (pre @ data) (length pre + i) result =
            decompress_loop (pre @ data) (length pre + i + 3)
              (result @ replicate (unat (data ! (i + 1))) (data ! (i + 2)))"
        using True by (subst decompress_loop_token) (simp_all add: nth_append add.assoc)
      also have "\<dots> = decompress_loop data (i + 3)
              (result @ replicate (unat (data ! (i + 1))) (data ! (i + 2)))"
        using less [OF smaller] by (simp add: add.assoc)
      finally show ?thesis using True by (simp add: decompress_loop_token)
    next
      case False
      have smaller: "length data - (i + 1) < length data - i" using inb by arith
      have "decompress_loop (pre @ data) (length pre + i) result =
            decompress_loop (pre @ data) (length pre + i + 1) (result @ [data ! i])"
        using False inb by (subst decompress_loop_literal) (simp_all add: nth_append)
      also have "\<dots> = decompress_loop data (i + 1) (result @ [data ! i])"
        using less [OF smaller] by (simp add: add.assoc)
      finally show ?thesis by (simp add: decompress_loop_literal [OF inb False])
    qed
  qed
qed

lemma quantumDecompress_Nil: "quantumDecompress [] = []"
  by (simp add: quantumDecompress_def decompress_loop_end)

lemma quantumDecompress_token:
  "quantumDecompress (0xFE # n # v # rest) = replicate (unat n) v @ quantumDecompress rest"
proof -
  have "decompress_loop (0xFE # n # v # rest) 0 [] =
        decompress_loop ([0xFE, n, v] @ rest) (length [0xFE, n, v] + 0) (replicate (unat n) v)"
    by (subst decompress_loop_token) (simp_all add: numeral_3_eq_3)
  also have "\<dots> = decompress_loop rest 0 (replicate (unat n) v)"
    by (rule decompress_loop_shift)
  finally show ?thesis
    by (simp add: quantumDecompress_def decompress_loop_acc [of rest 0 "replicate (unat n) v"])
qed

lemma quantumDecompress_literal:
  assumes "b \<noteq> 0xFE"
  shows "quantumDecompress (b # rest) = b # quantumDecompress rest"
proof -
  have "decompress_loop (b # rest) 0 [] = decompress_loop ([b] @ rest) (length [b] + 0) [b]"
    using assms by (subst decompress_loop_literal) simp_all
  also have "\<dots> = decompress_loop rest 0 [b]"
    by (rule decompress_loop_shift)
  finally show ?thesis
    by (simp add: quantumDecompress_def decompress_loop_acc [of rest 0 "[b]"])
qed

lemma compress_loop_end: "\<not> i < length data \<Longrightarrow> compress_loop data i result = result"
  by (simp add: compress_loop.simps [of data i])

lemma compress_loop_step:
  "i < length data \<Longrightarrow>
   compress_loop data i result =
   compress_loop data (i + run_length data i 1) (emit_run data i (run_length data i 1) result)"
  by (simp add: compress_loop.simps [of data i] Let_def)

lemma push_raw_concat:
  "push_raw data i runLength result =
   result @ concat (map (\<lambda>j. escape (data ! (i + j))) [0..<runLength])"
proof (induction runLength)
  case 0
  show ?case by (simp add: push_raw_def)
next
  case (Suc r)
  have "push_raw data i (Suc r) result = push_raw data i r result @ escape (data ! (i + r))"
    by (simp add: push_raw_def escape_def Let_def)
  with Suc show ?case by simp
qed

lemma emit_run_acc: "emit_run data i runLength result = result @ emit_run data i runLength []"
  by (simp add: emit_run_def push_raw_concat [of data i runLength result]
      push_raw_concat [of data i runLength "[]"])

lemma compress_loop_acc: "compress_loop data i result = result @ compress_loop data i []"
proof (induction "length data - i" arbitrary: i result rule: less_induct)
  case less
  show ?case
  proof (cases "i < length data")
    case False
    then show ?thesis by (simp add: compress_loop_end)
  next
    case True
    define r where "r = run_length data i 1"
    have "1 \<le> r" unfolding r_def by (rule run_length_ge)
    with True have smaller: "length data - (i + r) < length data - i" by arith
    have "compress_loop data i result = compress_loop data (i + r) (emit_run data i r result)"
      unfolding r_def by (rule compress_loop_step [OF True])
    also have "\<dots> = emit_run data i r result @ compress_loop data (i + r) []"
      by (rule less [OF smaller])
    also have "\<dots> = result @ emit_run data i r [] @ compress_loop data (i + r) []"
      by (subst emit_run_acc) simp
    also have "emit_run data i r [] @ compress_loop data (i + r) [] =
               compress_loop data (i + r) (emit_run data i r [])"
      by (rule less [OF smaller, symmetric])
    also have "\<dots> = compress_loop data i []"
      unfolding r_def by (rule compress_loop_step [OF True, symmetric])
    finally show ?thesis .
  qed
qed

lemma quantumDecompress_escape:
  "quantumDecompress (escape b @ rest) = b # quantumDecompress rest"
  by (simp add: escape_def quantumDecompress_token quantumDecompress_literal)

lemma quantumDecompress_raw:
  "quantumDecompress (concat (map (\<lambda>j. escape (data ! (i + j))) [0..<r]) @ rest) =
   map (\<lambda>j. data ! (i + j)) [0..<r] @ quantumDecompress rest"
proof (induction r arbitrary: rest)
  case 0
  show ?case by simp
next
  case (Suc r)
  show ?case using Suc [of "escape (data ! (i + r)) @ rest"]
    by (simp add: quantumDecompress_escape)
qed

lemma slice_map: "i + r \<le> length data \<Longrightarrow> map (\<lambda>j. data ! (i + j)) [0..<r] = take r (drop i data)"
  by (simp add: list_eq_iff_nth_eq)

lemma slice_run:
  assumes "i + r \<le> length (data :: bytes)" and "\<And>k. k < r \<Longrightarrow> data ! (i + k) = data ! i"
  shows "replicate r (data ! i) = take r (drop i data)"
  using assms by (simp add: list_eq_iff_nth_eq)

lemma quantumDecompress_emit_run:
  assumes "i < length data" and "r = run_length data i 1"
  shows "quantumDecompress (emit_run data i r [] @ rest) = take r (drop i data) @ quantumDecompress rest"
proof -
  have inside: "i + r \<le> length data"
    unfolding assms(2) using assms(1) by (intro run_length_inside) simp
  have le: "r \<le> 255" unfolding assms(2) by (intro run_length_le) simp
  have same: "\<And>k. k < r \<Longrightarrow> data ! (i + k) = data ! i"
    unfolding assms(2) by (rule run_length_same [of 1]) simp_all
  show ?thesis
  proof (cases "r \<ge> 3")
    case True
    have "unat (of_nat r :: 8 word) = r" using le by (simp add: unat_of_nat)
    then show ?thesis using True slice_run [OF inside same]
      by (simp add: emit_run_def quantumDecompress_token)
  next
    case False
    then show ?thesis using slice_map [OF inside]
      by (simp add: emit_run_def push_raw_concat quantumDecompress_raw)
  qed
qed

lemma decompress_compress_loop:
  "quantumDecompress (compress_loop data i []) = drop i data"
proof (induction "length data - i" arbitrary: i rule: less_induct)
  case less
  show ?case
  proof (cases "i < length data")
    case False
    then show ?thesis by (simp add: compress_loop_end quantumDecompress_Nil)
  next
    case True
    define r where "r = run_length data i 1"
    have "1 \<le> r" unfolding r_def by (rule run_length_ge)
    with True have smaller: "length data - (i + r) < length data - i" by arith
    have "compress_loop data i [] = emit_run data i r [] @ compress_loop data (i + r) []"
      unfolding r_def by (subst compress_loop_step [OF True]) (rule compress_loop_acc)
    then have "quantumDecompress (compress_loop data i []) =
               take r (drop i data) @ drop (i + r) data"
      using quantumDecompress_emit_run [OF True r_def] less [OF smaller] by simp
    also have "\<dots> = drop i data"
      by (metis add.commute append_take_drop_id drop_drop)
    finally show ?thesis .
  qed
qed

lemma length_escape: "length (escape b) \<le> 3"
  by (simp add: escape_def)

lemma length_emit_run:
  "1 \<le> r \<Longrightarrow> length (emit_run data i r result) \<le> length result + 3 * r"
proof -
  have "length (concat (map (\<lambda>j. escape (data ! (i + j))) [0..<r])) \<le> 3 * r" for r
  proof (induction r)
    case 0 show ?case by simp
  next
    case (Suc r)
    then show ?case using length_escape [of "data ! (i + r)"] by simp
  qed
  then show "1 \<le> r \<Longrightarrow> ?thesis"
    by (simp add: emit_run_def push_raw_concat)
qed

lemma length_compress_loop:
  "length (compress_loop data i result) \<le> length result + 3 * (length data - i)"
proof (induction "length data - i" arbitrary: i result rule: less_induct)
  case less
  show ?case
  proof (cases "i < length data")
    case False
    then show ?thesis by (simp add: compress_loop_end)
  next
    case True
    define r where "r = run_length data i 1"
    have r1: "1 \<le> r" unfolding r_def by (rule run_length_ge)
    have inside: "i + r \<le> length data"
      unfolding r_def using True by (intro run_length_inside) simp
    from r1 True have smaller: "length data - (i + r) < length data - i" by arith
    have "length (compress_loop data i result) =
          length (compress_loop data (i + r) (emit_run data i r result))"
      unfolding r_def by (simp add: compress_loop_step [OF True])
    also have "\<dots> \<le> length (emit_run data i r result) + 3 * (length data - (i + r))"
      by (rule less [OF smaller])
    also have "\<dots> \<le> length result + 3 * r + 3 * (length data - (i + r))"
      using length_emit_run [OF r1] by simp
    also have "\<dots> = length result + 3 * (length data - i)"
      using inside by simp
    finally show ?thesis .
  qed
qed

lemma length_push_raw:
  "length (push_raw data i r result) =
   length result + (\<Sum>j<r. if data ! (i + j) = 0xFE then 3 else 1)"
proof (induction r)
  case 0
  show ?case by (simp add: push_raw_concat)
next
  case (Suc r)
  have "push_raw data i (Suc r) result = push_raw data i r result @ escape (data ! (i + r))"
    by (simp add: push_raw_concat)
  then show ?case using Suc by (simp add: escape_def)
qed


section \<open>Facts about encryption and decryption\<close>

lemma xor_key_twice: "xor_key (xor_key b k) k = b"
  unfolding xor_key_def by (rule bit_word_eqI) (auto simp: bit_simps)

lemma encrypt_loop_break:
  "length c \<le> idx - 8 \<Longrightarrow> encrypt_loop (k # ks) c onProgress idx p enc w = Inr (enc, w)"
  by simp

lemma encrypt_loop_None_step:
  "\<not> length c \<le> idx - 8 \<Longrightarrow>
   encrypt_loop (k # ks) c None idx p enc w =
   encrypt_loop ks c None (idx + 1) (p + 1) (enc[idx := xor_key (c ! (idx - 8)) k]) w"
  by (simp only: encrypt_loop.simps xor_key_def Let_def if_False option.case)

lemma encrypt_loop_quiet_step:
  "\<not> length c \<le> idx - 8 \<Longrightarrow> (p + 1) mod 1024 \<noteq> 0 \<Longrightarrow>
   encrypt_loop (k # ks) c (Some f) idx p enc w =
   encrypt_loop ks c (Some f) (idx + 1) (p + 1) (enc[idx := xor_key (c ! (idx - 8)) k]) w"
  by (simp only: encrypt_loop.simps xor_key_def Let_def if_False option.case)

lemma encrypt_loop_call_step:
  "\<not> length c \<le> idx - 8 \<Longrightarrow> (p + 1) mod 1024 = 0 \<Longrightarrow>
   encrypt_loop (k # ks) c (Some f) idx p enc w =
   (case f (ddiv (Fin (of_nat (p + 1))) (Fin (of_nat (length c)))) w of
      Inl e \<Rightarrow> Inl (Thrown e)
    | Inr w' \<Rightarrow> encrypt_loop ks c (Some f) (idx + 1) (p + 1) (enc[idx := xor_key (c ! (idx - 8)) k]) w')"
  by (simp only: encrypt_loop.simps xor_key_def Let_def if_False if_True option.case simp_thms)

declare encrypt_loop.simps(2) [simp del]

lemma encrypt_loop_result:
  assumes "encrypt_loop ks c onProgress idx p enc w = Inr (enc', w')"
    and "length enc = length c + 8" and "8 \<le> idx" and "idx + length ks = length c + 8"
  shows "enc' = take idx enc @ map2 xor_key (drop (idx - 8) c) ks"
  using assms
proof (induction ks arbitrary: idx p enc w)
  case Nil
  then show ?case by simp
next
  case (Cons k ks)
  from Cons.prems have run: "\<not> length c \<le> idx - 8" by simp
  let ?enc = "enc[idx := xor_key (c ! (idx - 8)) k]"
  have l1: "length ?enc = length c + 8" using Cons.prems(2) by simp
  have l2: "8 \<le> idx + 1" using Cons.prems(3) by simp
  have l3: "(idx + 1) + length ks = length c + 8" using Cons.prems(4) by simp
  have "\<exists>w1. encrypt_loop ks c onProgress (idx + 1) (p + 1) ?enc w1 = Inr (enc', w')"
  proof (cases onProgress)
    case None
    with Cons.prems(1) show ?thesis by (auto simp: encrypt_loop_None_step [OF run])
  next
    case (Some f)
    show ?thesis
    proof (cases "(p + 1) mod 1024 = 0")
      case False
      with Cons.prems(1) Some show ?thesis by (auto simp: encrypt_loop_quiet_step [OF run])
    next
      case True
      with Cons.prems(1) Some show ?thesis
        by (auto simp: encrypt_loop_call_step [OF run] split: sum.splits)
    qed
  qed
  then obtain w1 where "encrypt_loop ks c onProgress (idx + 1) (p + 1) ?enc w1 = Inr (enc', w')" ..
  from Cons.IH [OF this l1 l2 l3]
  have "enc' = take (idx + 1) ?enc @ map2 xor_key (drop (idx + 1 - 8) c) ks" .
  also have "take (idx + 1) ?enc = take idx enc @ [xor_key (c ! (idx - 8)) k]"
    using Cons.prems(2,3,4) by (simp add: take_Suc_conv_app_nth)
  also have "idx + 1 - 8 = Suc (idx - 8)"
    using Cons.prems(3) by arith
  finally show ?case
    using run by (simp add: Cons_nth_drop_Suc [symmetric])
qed

lemma encrypt_loop_None_returns:
  "\<exists>enc'. encrypt_loop ks c (None :: ('w, 'e) callback option) idx p enc w = Inr (enc', w)"
proof (induction ks arbitrary: idx p enc)
  case Nil
  show ?case by simp
next
  case (Cons k ks)
  show ?case
  proof (cases "length c \<le> idx - 8")
    case True
    then show ?thesis by (simp add: encrypt_loop_break)
  next
    case False
    then show ?thesis using Cons.IH by (simp add: encrypt_loop_None_step)
  qed
qed

lemma low_byte: "(ucast (ucast (x AND 0xFF :: 32 word) :: 8 word) :: 32 word) = take_bit 8 x"
proof -
  have "(0xFF :: 32 word) = mask 8" by (simp add: mask_eq_exp_minus_1)
  then have "x AND 0xFF = take_bit 8 x" by (simp add: take_bit_eq_mask)
  moreover have "(ucast (ucast (take_bit 8 x) :: 8 word) :: 32 word) = take_bit 8 x"
    by (rule bit_word_eqI) (auto simp: bit_simps)
  ultimately show ?thesis by simp
qed

lemma four_bytes:
  "push_bit 24 (take_bit 8 (drop_bit 24 w)) OR push_bit 16 (take_bit 8 (drop_bit 16 w))
   OR push_bit 8 (take_bit 8 (drop_bit 8 w)) OR take_bit 8 (drop_bit 0 w) = (w :: 32 word)"
proof (rule bit_word_eqI)
  fix i
  assume i: "i < LENGTH(32)"
  consider "i < 8" | "8 \<le> i" "i < 16" | "16 \<le> i" "i < 24" | "24 \<le> i" "i < 32"
    using i by fastforce
  then show "bit (push_bit 24 (take_bit 8 (drop_bit 24 w)) OR push_bit 16 (take_bit 8 (drop_bit 16 w))
   OR push_bit 8 (take_bit 8 (drop_bit 8 w)) OR take_bit 8 (drop_bit 0 w)) i = bit w i"
  proof cases
    case 1
    then show ?thesis by (simp add: bit_simps)
  next
    case 2
    then have "i - 8 < 8" by arith
    with 2 show ?thesis by (simp add: bit_simps)
  next
    case 3
    then have "i - 16 < 8" "\<not> i - 8 < 8" by arith+
    with 3 show ?thesis by (simp add: bit_simps)
  next
    case 4
    then have "i - 24 < 8" "\<not> i - 16 < 8" "\<not> i - 8 < 8" by arith+
    with 4 show ?thesis by (simp add: bit_simps)
  qed
qed

lemma assemble_length:
  "push_bit 24 (ucast (length_byte n 24)) OR push_bit 16 (ucast (length_byte n 16))
   OR push_bit 8 (ucast (length_byte n 8)) OR ucast (length_byte n 0) = (of_nat n :: 32 word)"
  unfolding length_byte_def low_byte by (rule four_bytes)

lemma decrypt_loop_break:
  "n \<le> idx \<Longrightarrow> decrypt_loop (k # ks) enc n onProgress idx buf w = Inr (buf, w)"
  by simp

lemma decrypt_loop_None_step:
  "\<not> n \<le> idx \<Longrightarrow>
   decrypt_loop (k # ks) enc n None idx buf w =
   decrypt_loop ks enc n None (idx + 1) (buf[idx := ucast (int32_at enc (idx + 8) XOR k)]) w"
  by (simp only: decrypt_loop.simps Let_def if_False option.case)

declare decrypt_loop.simps(2) [simp del]

lemma decrypt_loop_None:
  assumes "length buf = n" and "idx + length ks = n"
  shows "decrypt_loop ks enc n (None :: ('w, 'e) callback option) idx buf w =
         Inr (take idx buf @ map2 (\<lambda>i k. ucast (int32_at enc (i + 8) XOR k)) [idx..<n] ks, w)"
  using assms
proof (induction ks arbitrary: idx buf)
  case Nil
  then show ?case by simp
next
  case (Cons k ks)
  then have run: "\<not> n \<le> idx" and lt: "idx < n" by simp_all
  let ?buf = "buf[idx := ucast (int32_at enc (idx + 8) XOR k)]"
  have l1: "length ?buf = n" using Cons.prems(1) by simp
  have l2: "(idx + 1) + length ks = n" using Cons.prems(2) by simp
  have t: "take (idx + 1) ?buf = take idx buf @ [ucast (int32_at enc (idx + 8) XOR k)]"
    using Cons.prems(1) lt by (simp add: take_Suc_conv_app_nth)
  have u: "[idx..<n] = idx # [idx + 1..<n]" using lt by (simp add: upt_conv_Cons)
  show ?case
    unfolding decrypt_loop_None_step [OF run] Cons.IH [OF l1 l2] t u by simp
qed

lemma sint_of_nat32:
  assumes "n < 2 ^ 31"
  shows "sint (of_nat n :: 32 word) = int n"
proof -
  have "int n < 2 ^ 31" using assms by simp
  then have "wrap32 (int n) = int n" by (simp add: wrap32_def)
  moreover have "(of_nat n :: 32 word) = word_of_int (int n)" by simp
  ultimately show ?thesis by (simp only: sint_word_of_int32)
qed

lemma take_header:
  "take 8 ((replicate (n + 8) (0 :: 8 word))[0 := b0, 1 := b1, 2 := b2, 3 := b3, 4 := b4, 5 := b5, 6 := b6, 7 := b7])
   = [b0, b1, b2, b3, b4, b5, b6, b7]"
  by (simp add: eval_nat_numeral)

lemma length_header [simp]: "length (header n m) = 8"
  by (simp add: header_def)

lemma quantumEncrypt_result:
  assumes "quantumEncrypt data password onProgress w = Inr (r, w')"
  shows "r = \<lparr>r_encrypted = container data password,
              r_fingerprint = generateEntropyFingerprint password,
              r_hash = quantumHash (container data password) password\<rparr>"
proof -
  define c where "c = quantumCompress data"
  define ks where "ks = entropyStream (generateEntropySeed password) (length c)"
  define enc0 where "enc0 = (replicate (length c + 8) (0 :: 8 word))
      [0 := length_byte (length data) 24, 1 := length_byte (length data) 16,
       2 := length_byte (length data) 8, 3 := length_byte (length data) 0,
       4 := length_byte (length c) 24, 5 := length_byte (length c) 16,
       6 := length_byte (length c) 8, 7 := length_byte (length c) 0]"
  from assms obtain e where loop: "encrypt_loop ks c onProgress 8 0 enc0 w = Inr (e, w')"
    and r: "r = \<lparr>r_encrypted = e, r_fingerprint = generateEntropyFingerprint password,
                  r_hash = quantumHash e password\<rparr>"
    unfolding quantumEncrypt_def Let_def c_def [symmetric] ks_def [symmetric] enc0_def [symmetric]
    by (auto split: sum.splits)
  have "e = take 8 enc0 @ map2 xor_key (drop (8 - 8) c) ks"
    by (rule encrypt_loop_result [OF loop]) (simp_all add: enc0_def ks_def length_entropyStream)
  also have "take 8 enc0 = header (length data) (length c)"
    unfolding enc0_def header_def by (rule take_header)
  finally have "e = container data password"
    by (simp add: container_def Let_def c_def ks_def)
  with r show ?thesis by simp
qed

lemma quantumEncrypt_None:
  "quantumEncrypt data password (None :: ('w, 'e) callback option) w =
   Inr (\<lparr>r_encrypted = container data password,
         r_fingerprint = generateEntropyFingerprint password,
         r_hash = quantumHash (container data password) password\<rparr>, w)"
proof -
  have "\<exists>r. quantumEncrypt data password (None :: ('w, 'e) callback option) w = Inr (r, w)"
    unfolding quantumEncrypt_def Let_def
    using encrypt_loop_None_returns by (metis (mono_tags, lifting) old.prod.case sum.simps(6))
  then obtain r where r: "quantumEncrypt data password (None :: ('w, 'e) callback option) w = Inr (r, w)" ..
  from quantumEncrypt_result [OF r] r show ?thesis by simp
qed

lemma quantumDecrypt_None:
  "quantumDecrypt enc password fp d (None :: ('w, 'e) callback option) w =
   (if generateEntropyFingerprint password \<noteq> fp then Inr (None, w)
    else if quantumHash enc password \<noteq> d then Inr (None, w)
    else if read_length enc 4 < 0 then Inl RangeError
    else let n = nat (read_length enc 4);
             plain = quantumDecompress
                       (map2 (\<lambda>i k. ucast (int32_at enc (i + 8) XOR k)) [0..<n]
                             (entropyStream (generateEntropySeed password) n))
         in if int (length plain) \<noteq> read_length enc 0 then Inr (None, w) else Inr (Some plain, w))"
  by (simp add: quantumDecrypt_def Let_def decrypt_loop_None length_entropyStream)

lemma int32_at_append_left: "i < length xs \<Longrightarrow> int32_at (xs @ ys) i = ucast (xs ! i)"
  by (simp add: int32_at_def nth_append)

lemma read_length_container:
  "read_length (container data password) 0 = sint (of_nat (length data) :: 32 word)"
  "read_length (container data password) 4 = sint (of_nat (length (quantumCompress data)) :: 32 word)"
  by (simp_all add: read_length_def container_def Let_def int32_at_def header_def
      assemble_length)

lemma decrypt_container_bytes:
  fixes hd8 :: bytes
  assumes that: "length hd8 = 8" and "length ks = length c"
  shows "map2 (\<lambda>i k. ucast (int32_at (hd8 @ map2 xor_key c ks) (i + 8) XOR k)) [0..<length c] ks = c"
proof (rule nth_equalityI)
  show "length (map2 (\<lambda>i k. ucast (int32_at (hd8 @ map2 xor_key c ks) (i + 8) XOR k)) [0..<length c] ks) = length c"
    using assms(2) by simp
next
  fix i
  assume "i < length (map2 (\<lambda>i k. ucast (int32_at (hd8 @ map2 xor_key c ks) (i + 8) XOR k)) [0..<length c] ks)"
  then have i: "i < length c" using assms(2) by simp
  then have "int32_at (hd8 @ map2 xor_key c ks) (i + 8) = ucast (xor_key (c ! i) (ks ! i))"
    using assms by (simp add: int32_at_def nth_append)
  then have "ucast (int32_at (hd8 @ map2 xor_key c ks) (i + 8) XOR ks ! i) = xor_key (xor_key (c ! i) (ks ! i)) (ks ! i)"
    by (simp add: xor_key_def)
  then show "map2 (\<lambda>i k. ucast (int32_at (hd8 @ map2 xor_key c ks) (i + 8) XOR k)) [0..<length c] ks ! i = c ! i"
    using i assms(2) by (simp add: xor_key_twice)
qed

lemma quantumDecompress_quantumCompress: "quantumDecompress (quantumCompress data) = data"
  by (simp add: quantumCompress_def decompress_compress_loop)

lemma decrypt_container:
  assumes "length data < 2 ^ 31" and "length (quantumCompress data) < 2 ^ 31"
  shows "quantumDecrypt (container data password) password (generateEntropyFingerprint password)
           (quantumHash (container data password) password) (None :: ('w, 'e) callback option) w
         = Inr (Some data, w)"
proof -
  define c where "c = quantumCompress data"
  define ks where "ks = entropyStream (generateEntropySeed password) (length c)"
  have ks: "length ks = length c" by (simp add: ks_def length_entropyStream)
  have cont: "container data password = header (length data) (length c) @ map2 xor_key c ks"
    by (simp add: container_def Let_def c_def ks_def)
  have l0: "read_length (container data password) 0 = int (length data)"
    using assms(1) by (simp add: read_length_container sint_of_nat32)
  have l4: "read_length (container data password) 4 = int (length c)"
    using assms(2) by (simp add: read_length_container sint_of_nat32 c_def)
  have bytes: "map2 (\<lambda>i k. ucast (int32_at (container data password) (i + 8) XOR k)) [0..<length c] ks = c"
    unfolding cont by (rule decrypt_container_bytes [OF _ ks]) simp
  show ?thesis
    unfolding quantumDecrypt_None l0 l4
    by (simp add: Let_def ks_def [symmetric] bytes)
      (simp add: c_def quantumDecompress_quantumCompress)
qed

lemma length_quantumCompress_le: "length (quantumCompress data) \<le> 3 * length data"
  using length_compress_loop [of data 0 "[]"] by (simp add: quantumCompress_def)

lemma run_length_replicate:
  assumes "i + r \<le> n" and "r \<le> 255"
  shows "run_length (replicate n v) i r = min 255 (n - i)"
  using assms
proof (induction "255 - r" arbitrary: r rule: less_induct)
  case less
  show ?case
  proof (cases "i + r < n \<and> r < 255")
    case True
    then have step: "i + r < length (replicate n v) \<and>
        replicate n v ! i = replicate n v ! (i + r) \<and> r < 255" by simp
    from True have "255 - (r + 1) < 255 - r" "i + (r + 1) \<le> n" "r + 1 \<le> 255" by arith+
    then have "run_length (replicate n v) i (r + 1) = min 255 (n - i)"
      by (rule less.hyps)
    then show ?thesis by (simp only: run_length_step [OF step])
  next
    case False
    then have stop: "\<not> (i + r < length (replicate n v) \<and>
        replicate n v ! i = replicate n v ! (i + r) \<and> r < 255)" by simp
    from False less.prems have "r = min 255 (n - i)" by (auto simp: min_def)
    moreover have "run_length (replicate n v) i r = r" by (rule run_length_stop [OF stop])
    ultimately show ?thesis by simp
  qed
qed

lemma length_emit_run_le6:
  assumes "1 \<le> r"
  shows "length (emit_run data i r result) \<le> length result + (if 3 \<le> r then 3 else 6)"
proof (cases "3 \<le> r")
  case True
  then show ?thesis by (simp add: emit_run_def)
next
  case False
  then have "3 * r \<le> 6" by simp
  with length_emit_run [OF assms, of data i result] False show ?thesis by simp
qed

lemma length_compress_replicate:
  "length (compress_loop (replicate n v) i result) \<le> length result + 3 * ((n - i) div 255) + 6"
proof (induction "n - i" arbitrary: i result rule: less_induct)
  case less
  let ?data = "replicate n v"
  show ?case
  proof (cases "i < n")
    case False
    then show ?thesis by (simp add: compress_loop_end)
  next
    case True
    define r where "r = run_length ?data i 1"
    have r: "r = min 255 (n - i)" unfolding r_def using True by (intro run_length_replicate) simp_all
    then have r1: "1 \<le> r" using True by simp
    have step: "compress_loop ?data i result = compress_loop ?data (i + r) (emit_run ?data i r result)"
      unfolding r_def using True by (intro compress_loop_step) simp
    show ?thesis
    proof (cases "255 \<le> n - i")
      case big: True
      then have r255: "r = 255" using r by simp
      have smaller: "n - (i + r) < n - i" using True r1 by arith
      have d: "(n - i) div 255 = Suc ((n - (i + r)) div 255)"
      proof -
        have "(n - i) div 255 = Suc ((n - i - 255) div 255)" using big by (simp add: le_div_geq)
        moreover have "n - i - 255 = n - (i + r)" using r255 by arith
        ultimately show ?thesis by simp
      qed
      have "length (compress_loop ?data (i + r) (emit_run ?data i r result))
            \<le> length (emit_run ?data i r result) + 3 * ((n - (i + r)) div 255) + 6"
        by (rule less [OF smaller])
      also have "length (emit_run ?data i r result) = length result + 3"
        using r255 by (simp add: emit_run_def)
      finally show ?thesis unfolding step d by simp
    next
      case small: False
      then have "i + r = n" using r True by simp
      then have "compress_loop ?data i result = emit_run ?data i r result"
        using step by (simp add: compress_loop_end)
      then show ?thesis using length_emit_run_le6 [OF r1, of ?data i result]
        by (simp split: if_splits)
    qed
  qed
qed

lemma decrypt_negative_length:
  assumes n: "n = 2147483648"
  shows "quantumDecrypt (container (replicate n 0) password) password
           (generateEntropyFingerprint password)
           (quantumHash (container (replicate n 0) password) password)
           (None :: ('w, 'e) callback option) w = Inr (None, w)"
proof -
  let ?c = "quantumCompress (replicate n 0)"
  have "length ?c \<le> 3 * (n div 255) + 6"
    using length_compress_replicate [of n 0 0 "[]"] by (simp add: quantumCompress_def)
  then have "length ?c < 2 ^ 31" unfolding n by simp
  then have l4: "read_length (container (replicate n 0) password) 4 = int (length ?c)"
    by (simp add: read_length_container sint_of_nat32)
  have l0: "read_length (container (replicate n 0) password) 0 = - 2147483648"
    unfolding read_length_container n by simp
  show ?thesis unfolding quantumDecrypt_None l0 l4 by (simp add: Let_def)
qed

lemma fingerprint_structure:
  "generateEntropyFingerprint password =
     concat (map hex_byte (chaos_stream (generateEntropySeed password) 32))
   \<and> length (generateEntropyFingerprint password) = 64
   \<and> list_all (\<lambda>c. c \<in> set ''0123456789abcdef'') (generateEntropyFingerprint password)
   \<and> list_all (\<lambda>b. 0 \<le> b \<and> b \<le> 255) (map sint (entropyStream (generateEntropySeed password) 32))"
proof -
  obtain s where seed: "generateEntropySeed password = Fin s"
    and "rnd (1 / 10000) \<le> s" "s \<le> rnd (9999 / 10000)"
    using generateEntropySeed_range [of password] by blast
  then have u: "0 \<le> s" "s \<le> 1" by (auto intro: seed_range_unit)
  let ?bs = "map sint (entropyStream (Fin s) 32)"
  have bytes: "list_all (\<lambda>b. 0 \<le> b \<and> b \<le> 255) ?bs" by (rule entropyStream_unit(2) [OF u])
  have "generateEntropyFingerprint password = concat (map (\<lambda>b. padStart2 (toString16 b)) ?bs)"
    by (simp add: generateEntropyFingerprint_def Let_def seed o_def)
  then have fp: "generateEntropyFingerprint password = concat (map hex_byte ?bs)"
    by (simp only: concat_hex_bytes(1) [OF bytes])
  have len: "length ?bs = 32" by (simp add: length_entropyStream)
  show ?thesis
    using fp concat_hex_bytes(2,3) [OF bytes] bytes len
    by (simp only: seed entropyStream_unit(1) [OF u, symmetric]) simp
qed

lemma length_generateEntropyFingerprint: "length (generateEntropyFingerprint password) = 64"
  using fingerprint_structure [of password] by blast

lemma encrypt_loop_total:
  assumes "\<forall>x w. \<exists>w'. f x w = Inr w'"
  shows "\<exists>e w'. encrypt_loop ks c (Some f) idx p enc w = Inr (e, w')"
proof (induction ks arbitrary: idx p enc w)
  case Nil
  show ?case by simp
next
  case (Cons k ks)
  show ?case
  proof (cases "length c \<le> idx - 8")
    case True
    then show ?thesis by (simp add: encrypt_loop_break)
  next
    case run: False
    show ?thesis
    proof (cases "(p + 1) mod 1024 = 0")
      case False
      then show ?thesis using Cons.IH by (simp add: encrypt_loop_quiet_step [OF run])
    next
      case True
      obtain w' where "f (ddiv (Fin (of_nat (p + 1))) (Fin (of_nat (length c)))) w = Inr w'"
        using assms by blast
      then show ?thesis using Cons.IH by (simp add: encrypt_loop_call_step [OF run True])
    qed
  qed
qed

lemma quantumEncrypt_total:
  assumes "\<forall>x w. \<exists>w'. f x w = Inr w'"
  shows "\<exists>r w'. quantumEncrypt data password (Some f) w = Inr (r, w')"
proof -
  define c where "c = quantumCompress data"
  define ks where "ks = entropyStream (generateEntropySeed password) (length c)"
  define enc0 where "enc0 = (replicate (length c + 8) (0 :: 8 word))
      [0 := length_byte (length data) 24, 1 := length_byte (length data) 16,
       2 := length_byte (length data) 8, 3 := length_byte (length data) 0,
       4 := length_byte (length c) 24, 5 := length_byte (length c) 16,
       6 := length_byte (length c) 8, 7 := length_byte (length c) 0]"
  obtain e w' where "encrypt_loop ks c (Some f) 8 0 enc0 w = Inr (e, w')"
    using encrypt_loop_total [OF assms] by blast
  then show ?thesis
    unfolding quantumEncrypt_def Let_def c_def [symmetric] ks_def [symmetric] enc0_def [symmetric]
    by simp
qed

lemma entropyStream_0: "entropyStream seed 0 = []"
  using length_entropyStream [of seed 0] by simp

lemma short_container_bytes:
  assumes "length enc < 8" and "length ks = n"
  shows "map2 (\<lambda>i k. ucast (int32_at enc (i + 8) XOR k)) [0..<n] ks = (map ucast ks :: bytes)"
proof (rule nth_equalityI)
  show "length (map2 (\<lambda>i k. ucast (int32_at enc (i + 8) XOR k)) [0..<n] ks) = length (map ucast ks :: bytes)"
    using assms(2) by simp
next
  fix i
  assume "i < length (map2 (\<lambda>i k. ucast (int32_at enc (i + 8) XOR k)) [0..<n] ks)"
  then have "i < n" using assms(2) by simp
  moreover have "int32_at enc (i + 8) = 0" using assms(1) by (simp add: int32_at_def)
  ultimately show "map2 (\<lambda>i k. ucast (int32_at enc (i + 8) XOR k)) [0..<n] ks ! i = (map ucast ks :: bytes) ! i"
    using assms(2) by simp
qed

lemma int32_at_padded:
  "int32_at (enc @ replicate (8 - length enc) 0) i = int32_at enc i" if "length enc < 8"
  using that by (auto simp: int32_at_def nth_append)

section \<open>The round trip, and short containers\<close>

text \<open>
  Below \<open>2^31\<close> bytes, for the data and for its compressed form, decryption is the inverse of
  encryption: whatever progress callback the encryption ran with, decrypting its container
  with the same password, its fingerprint and its hash returns the data.
\<close>

lemma encrypt_decrypt_roundtrip:
  assumes "length data < 2 ^ 31" and "length (quantumCompress data) < 2 ^ 31"
    and "quantumEncrypt data password onProgress w = Inr (r, w')"
  shows "quantumDecrypt (r_encrypted r) password (r_fingerprint r) (r_hash r)
           (None :: ('v, 'f) callback option) v = Inr (Some data, v)"
  unfolding quantumEncrypt_result [OF assms(3)] enc_result.simps
  by (rule decrypt_container [OF assms(1,2)])

text \<open>
  What \<open>quantumDecrypt\<close> does with a container of fewer than 8 bytes: when fingerprint and
  hash match, it takes the lengths from the bytes that are there, with 0 for the others, and
  decompresses the key stream itself, since every ciphertext byte reads as 0.
\<close>

lemma short_container_decrypt:
  assumes "length enc < 8"
  shows "quantumDecrypt enc password fp d (None :: ('w, 'e) callback option) w =
     (if generateEntropyFingerprint password = fp \<and> quantumHash enc password = d
      then if read_length enc 4 < 0 then Inl RangeError
           else let plain = quantumDecompress
                              (map ucast (entropyStream (generateEntropySeed password)
                                                        (nat (read_length enc 4))))
                in if int (length plain) = read_length enc 0 then Inr (Some plain, w)
                   else Inr (None, w)
      else Inr (None, w))
   \<and> read_length enc 0 = read_length (enc @ replicate (8 - length enc) 0) 0
   \<and> read_length enc 4 = read_length (enc @ replicate (8 - length enc) 0) 4"
proof -
  have b: "map2 (\<lambda>i k. ucast (int32_at enc (i + 8) XOR k)) [0..<n] (entropyStream seed n)
        = (map ucast (entropyStream seed n) :: bytes)" for n seed
    by (rule short_container_bytes [OF assms]) (simp add: length_entropyStream)
  have p0: "read_length enc 0 = read_length (enc @ replicate (8 - length enc) 0) 0"
    by (simp add: read_length_def int32_at_padded [OF assms])
  have p4: "read_length enc 4 = read_length (enc @ replicate (8 - length enc) 0) 4"
    by (simp add: read_length_def int32_at_padded [OF assms])
  have "quantumDecrypt enc password fp d (None :: ('w, 'e) callback option) w =
     (if generateEntropyFingerprint password = fp \<and> quantumHash enc password = d
      then if read_length enc 4 < 0 then Inl RangeError
           else let plain = quantumDecompress
                              (map ucast (entropyStream (generateEntropySeed password)
                                                        (nat (read_length enc 4))))
                in if int (length plain) = read_length enc 0 then Inr (Some plain, w)
                   else Inr (None, w)
      else Inr (None, w))"
    unfolding quantumDecrypt_None b by (simp add: Let_def)
  with p0 p4 show ?thesis by blast
qed

section \<open>The claims\<close>

text \<open>
  Claim C2.  For every byte sequence \<open>data\<close>, decompressing the compressed data gives
  \<open>data\<close> back.  The statement has no side condition, so it covers the empty sequence,
  data containing the marker byte \<open>0xFE\<close>, and runs longer than 255 bytes.
\<close>

theorem decompress_compress: "quantumDecompress (quantumCompress data) = data"
  by (simp add: quantumCompress_def decompress_compress_loop)

text \<open>
  Claim C9.  The compressed data is at most three times as long as the data.  A run of three
  or more bytes is stored in exactly three bytes, and every byte of a shorter run in one byte,
  or in three when it is the marker \<open>0xFE\<close>.
\<close>

theorem compress_length_bound:
  "length (quantumCompress data) \<le> 3 * length data
   \<and> length (emit_run data i (r + 3) result) = length result + 3
   \<and> length (push_raw data i r result) =
       length result + (\<Sum>j<r. if data ! (i + j) = 0xFE then 3 else 1)"
proof (intro conjI)
  show "length (quantumCompress data) \<le> 3 * length data"
    using length_compress_loop [of data 0 "[]"] by (simp add: quantumCompress_def)
  show "length (emit_run data i (r + 3) result) = length result + 3"
    by (simp add: emit_run_def)
  show "length (push_raw data i r result) =
       length result + (\<Sum>j<r. if data ! (i + j) = 0xFE then 3 else 1)"
    by (rule length_push_raw)
qed

text \<open>
  Claim C3, as amended.  For every password the seed is a finite number in the closed
  interval between the two literals \<open>0.0001\<close> and \<open>0.9999\<close> (as binary64 values), and it is
  never 0, 0.5 or 1.  The endpoints are not excluded.
\<close>

theorem seed_closed_interval:
  "\<exists>s. generateEntropySeed password = Fin s
       \<and> fl (1 / 10000) = Fin (rnd (1 / 10000)) \<and> fl (9999 / 10000) = Fin (rnd (9999 / 10000))
       \<and> rnd (1 / 10000) \<le> s \<and> s \<le> rnd (9999 / 10000)
       \<and> s \<noteq> 0 \<and> s \<noteq> 1 / 2 \<and> s \<noteq> 1"
proof -
  define v where "v = rnd (of_int \<bar>sint (foldl hash_char 0 password)\<bar> / 2147483647)"
  define s where "s = max (rnd (1 / 10000)) (min (rnd (9999 / 10000)) v)"
  have seed: "generateEntropySeed password = Fin s"
    by (simp add: generateEntropySeed_Fin s_def v_def)
  have v: "v \<noteq> 1 / 2"
    unfolding v_def using abs_sint32_le by (intro normalized_not_half) simp_all
  have 1: "fl (1 / 10000) = Fin (rnd (1 / 10000))" by (rule fl_small) simp
  have 2: "fl (9999 / 10000) = Fin (rnd (9999 / 10000))" by (rule fl_small) simp
  have lo: "rnd (1 / 10000) \<le> s" by (simp add: s_def)
  have hi: "s \<le> rnd (9999 / 10000)"
    using seed_lo_bounds seed_hi_bounds by (simp add: s_def)
  have "s \<noteq> 0" using lo seed_lo_bounds(1) by simp
  moreover have "s \<noteq> 1" using hi seed_hi_bounds(2) by simp
  moreover have "s \<noteq> 1 / 2"
    using v seed_lo_bounds(2) seed_hi_bounds(1) by (simp add: s_def max_def min_def)
  ultimately show ?thesis using seed 1 2 lo hi by blast
qed

text \<open>
  Claim C3 as stated fails: the empty password gives the lower endpoint \<open>0.0001\<close> itself.
\<close>

theorem seed_boundary_counterexample:
  "generateEntropySeed [] = fl (1 / 10000) \<and> \<not> dless (fl (1 / 10000)) (generateEntropySeed [])"
proof -
  have 1: "fl (1 / 10000) = Fin (rnd (1 / 10000))" by (rule fl_small) simp
  have "rnd 0 = 0" by (simp add: rnd_def)
  then have "generateEntropySeed [] = Fin (rnd (1 / 10000))"
    using seed_lo_bounds(1) seed_hi_bounds(1)
    by (simp add: generateEntropySeed_Fin max_def min_def)
  then show ?thesis by (simp add: 1)
qed

text \<open>
  Claim C7, as amended.  For every password \<open>generateEntropySeed\<close> is the seed of the
  specification with the logical right shift: per character
  \<open>h = ((h << 5) - h + code) mod 2^32\<close> in two's complement, then \<open>h ^= h >>> 16\<close> where the
  shift fills with zeros, and finally the clamp of \<open>|h| / 2147483647\<close> to \<open>[0.0001, 0.9999]\<close>.
\<close>

theorem seed_hash_logical_shift:
  "generateEntropySeed password = spec_derive_seed shr16 password"
proof -
  have "foldl (spec_hash_round shr16) 0 (map uint password) = sint (foldl hash_char 0 password)"
    using sint_foldl_hash_char [of 0 password] by simp
  from spec_derive_seed_sint [OF this] show ?thesis
    by (simp only: generateEntropySeed_Fin)
qed

text \<open>
  Claim C7 as stated fails: with the arithmetic, sign-extending shift the password
  \<open>abcdef\<close> gets another seed than the one the code computes.
\<close>

theorem seed_hash_arithmetic_shift_counterexample:
  "generateEntropySeed [0x61, 0x62, 0x63, 0x64, 0x65, 0x66]
   \<noteq> spec_derive_seed sar16 [0x61, 0x62, 0x63, 0x64, 0x65, 0x66]"
proof -
  let ?P = "[0x61, 0x62, 0x63, 0x64, 0x65, 0x66] :: jsstring"
  define a1 :: rat where "a1 = 1424377616 / 2147483647"
  define a2 :: rat where "a2 = 1424406768 / 2147483647"
  have s2: "sint (0x54E6B8F0 :: 32 word) = 1424406768" by simp
  have "foldl (spec_hash_round sar16) 0 (map uint ?P) = sint (0x54E6B8F0 :: 32 word)"
    by (simp only: h2 s2)
  from spec_derive_seed_sint [OF this]
  have spec: "spec_derive_seed sar16 ?P = Fin (max (rnd (1 / 10000)) (min (rnd (9999 / 10000)) (rnd a2)))"
    by (simp add: a2_def)
  have code: "generateEntropySeed ?P = Fin (max (rnd (1 / 10000)) (min (rnd (9999 / 10000)) (rnd a1)))"
    unfolding generateEntropySeed_Fin h1 h1s a1_def by simp
  have b1: "rnd a1 \<le> a1 + 1 / 2 ^ 45" "a1 - 1 / 2 ^ 45 \<le> rnd a1"
    by (rule rnd_upper, simp add: a1_def) (rule rnd_lower, simp add: a1_def)
  have b2: "rnd a2 \<le> a2 + 1 / 2 ^ 45" "a2 - 1 / 2 ^ 45 \<le> rnd a2"
    by (rule rnd_upper, simp add: a2_def) (rule rnd_lower, simp add: a2_def)
  have "rnd a1 < rnd a2" using b1(1) b2(2) by (simp add: a1_def a2_def)
  moreover have "rnd (1 / 10000) \<le> rnd a1" using seed_lo_bounds(2) b1(2) by (simp add: a1_def)
  moreover have "rnd a2 \<le> rnd (9999 / 10000)" using seed_hi_bounds(1) b2(1) by (simp add: a2_def)
  ultimately have "max (rnd (1 / 10000)) (min (rnd (9999 / 10000)) (rnd a1))
      \<noteq> max (rnd (1 / 10000)) (min (rnd (9999 / 10000)) (rnd a2))"
    by (simp add: max_def min_def)
  then show ?thesis by (simp add: code spec)
qed

text \<open>
  Claim C6.  For every seed between the literals \<open>0.0001\<close> and \<open>0.9999\<close> and every count
  \<open>n\<close>, the generator yields exactly \<open>n\<close> values, and they are the bytes of the specification:
  from \<open>x = seed\<close>, \<open>y = tent(seed)\<close>, after 100 silent updates of both maps, each further update
  emits \<open>floor(((x + y) / 2) * 256) & 0xFF\<close>.  The code applies \<open>| 0\<close> and no mask; on this range
  of seeds the two agree.
\<close>

theorem entropyStream_chaos_stream:
  assumes "\<not> dless (Fin s) (fl (1 / 10000))" and "\<not> dless (fl (9999 / 10000)) (Fin s)"
  shows "length (entropyStream (Fin s) n) = n
       \<and> map sint (entropyStream (Fin s) n) = chaos_stream (Fin s) n"
proof -
  from assms have "rnd (1 / 10000) \<le> s" "s \<le> rnd (9999 / 10000)"
    by (simp_all add: fl_lo fl_hi)
  then have "0 \<le> s" "s \<le> 1" by (rule seed_range_unit)+
  then show ?thesis by (simp add: length_entropyStream entropyStream_unit(1))
qed

text \<open>The seed \<open>0.5\<close> lies in the range.\<close>

theorem entropyStream_chaos_stream_witness:
  "\<not> dless (Fin (1 / 2)) (fl (1 / 10000)) \<and> \<not> dless (fl (9999 / 10000)) (Fin (1 / 2))
   \<and> length (entropyStream (Fin (1 / 2)) 3) = 3
   \<and> map sint (entropyStream (Fin (1 / 2)) 3) = chaos_stream (Fin (1 / 2)) 3"
proof -
  have lo: "\<not> dless (Fin (1 / 2)) (fl (1 / 10000))"
    using seed_lo_bounds(2) by (simp add: fl_lo)
  have hi: "\<not> dless (fl (9999 / 10000)) (Fin (1 / 2))"
    using seed_hi_bounds(1) by (simp add: fl_hi)
  from entropyStream_chaos_stream [OF lo hi, of 3] lo hi show ?thesis by blast
qed

text \<open>
  Claim C8.  For every password the fingerprint is the hex encoding, two lowercase digits per
  byte and in stream order, of the first 32 bytes of the chaos stream of the password's seed:
  it has exactly 64 characters, each a lowercase hexadecimal digit, and every value the
  stream yields lies in \<open>[0, 255]\<close>.
\<close>

theorem fingerprint_hex:
  "generateEntropyFingerprint password =
     concat (map hex_byte (chaos_stream (generateEntropySeed password) 32))
   \<and> length (generateEntropyFingerprint password) = 64
   \<and> list_all (\<lambda>c. c \<in> set ''0123456789abcdef'') (generateEntropyFingerprint password)
   \<and> list_all (\<lambda>b. 0 \<le> b \<and> b \<le> 255) (map sint (entropyStream (generateEntropySeed password) 32))"
  by (rule fingerprint_structure)

text \<open>
  Claim C1.  For every byte sequence \<open>data\<close> shorter than \<open>2^32\<close> bytes and every password,
  if encryption returns a container, fingerprint and hash, then decryption of them with the
  same password returns exactly \<open>data\<close>.  The code breaks this from \<open>2^31\<close> bytes on:
  \<open>quantumEncrypt\<close> stores the length as an unsigned 32-bit integer, \<open>quantumDecrypt\<close> reads it
  back as a signed one.  For \<open>2^31\<close> zero bytes under the password \<open>pw\<close>, encryption returns
  and decryption of its result returns \<open>null\<close>.
\<close>

theorem roundtrip_signed_length:
  "length (replicate 2147483648 (0 :: 8 word)) < 2 ^ 32
   \<and> quantumEncrypt (replicate 2147483648 0) [0x70, 0x77] (None :: (unit, unit) callback option) ()
       = Inr (\<lparr>r_encrypted = container (replicate 2147483648 0) [0x70, 0x77],
               r_fingerprint = generateEntropyFingerprint [0x70, 0x77],
               r_hash = quantumHash (container (replicate 2147483648 0) [0x70, 0x77]) [0x70, 0x77]\<rparr>, ())
   \<and> quantumDecrypt (container (replicate 2147483648 0) [0x70, 0x77]) [0x70, 0x77]
         (generateEntropyFingerprint [0x70, 0x77])
         (quantumHash (container (replicate 2147483648 0) [0x70, 0x77]) [0x70, 0x77])
         (None :: (unit, unit) callback option) () = Inr (None, ())"
proof (intro conjI)
  show "length (replicate 2147483648 (0 :: 8 word)) < 2 ^ 32"
    by (simp only: length_replicate) simp
  show "quantumEncrypt (replicate 2147483648 0) [0x70, 0x77] (None :: (unit, unit) callback option) ()
       = Inr (\<lparr>r_encrypted = container (replicate 2147483648 0) [0x70, 0x77],
               r_fingerprint = generateEntropyFingerprint [0x70, 0x77],
               r_hash = quantumHash (container (replicate 2147483648 0) [0x70, 0x77]) [0x70, 0x77]\<rparr>, ())"
    by (rule quantumEncrypt_None)
  show "quantumDecrypt (container (replicate 2147483648 0) [0x70, 0x77]) [0x70, 0x77]
         (generateEntropyFingerprint [0x70, 0x77])
         (quantumHash (container (replicate 2147483648 0) [0x70, 0x77]) [0x70, 0x77])
         (None :: (unit, unit) callback option) () = Inr (None, ())"
    by (rule decrypt_negative_length [OF refl])
qed

text \<open>
  Claim C4, as amended.  For every container shorter than 8 bytes and every password: when
  the fingerprint of the password differs from the expected fingerprint, or the hash of the
  container from the expected hash, \<open>quantumDecrypt\<close> fails with \<open>null\<close>, the one failure value it
  has, without reading the header or calling the callback.  Nothing is claimed for a short
  container whose fingerprint and hash both match.
\<close>

theorem short_container_mismatch:
  assumes "length encrypted < 8"
    and "generateEntropyFingerprint password \<noteq> expectedFingerprint
         \<or> quantumHash encrypted password \<noteq> expectedHash"
  shows "quantumDecrypt encrypted password expectedFingerprint expectedHash onProgress w
         = Inr (None, w)"
  using assms(2) by (auto simp: quantumDecrypt_def Let_def)

text \<open>The four-byte container \<open>[0, 0, 0, 1]\<close> with an expected fingerprint that is too short.\<close>

theorem short_container_mismatch_witness:
  "length [0, 0, 0, 1 :: 8 word] < 8
   \<and> generateEntropyFingerprint [0x70, 0x77] \<noteq> ''00''
   \<and> quantumDecrypt [0, 0, 0, 1] [0x70, 0x77] ''00'' ''00'' (None :: (unit, unit) callback option) ()
       = Inr (None, ())"
proof -
  have a: "length [0, 0, 0, 1 :: 8 word] < 8" by simp
  have b: "generateEntropyFingerprint [0x70, 0x77] \<noteq> ''00''"
    using length_generateEntropyFingerprint [of "[0x70, 0x77]"] by auto
  have "quantumDecrypt [0, 0, 0, 1] [0x70, 0x77] ''00'' ''00'' (None :: (unit, unit) callback option) ()
       = Inr (None, ())"
    by (rule short_container_mismatch [OF a disjI1 [OF b]])
  with a b show ?thesis by blast
qed

text \<open>
  Claim C4 as stated fails: the empty container, with the fingerprint of the password and the
  hash of the empty container, is not rejected; it decrypts to the empty plaintext.
\<close>

theorem short_container_accepted:
  "length ([] :: bytes) < 8
   \<and> quantumDecrypt [] [0x70, 0x77] (generateEntropyFingerprint [0x70, 0x77])
        (quantumHash [] [0x70, 0x77]) (None :: (unit, unit) callback option) ()
      = Inr (Some [], ())"
proof -
  have l: "read_length [] 4 = 0" "read_length [] 0 = 0" by (simp_all add: read_length_def int32_at_def)
  show ?thesis
    unfolding quantumDecrypt_None
    by (simp add: l entropyStream_0 quantumDecompress_Nil)
qed

text \<open>
  Claim C5.  When the fingerprint of the password differs from the expected fingerprint,
  \<open>quantumDecrypt\<close> fails, with the one failure value it has (\<open>null\<close>), whatever the
  container bytes and the expected hash are; the callback is not called.
\<close>

theorem wrong_password_rejected:
  assumes "generateEntropyFingerprint password \<noteq> expectedFingerprint"
  shows "quantumDecrypt encrypted password expectedFingerprint expectedHash onProgress w = Inr (None, w)"
  using assms by (simp add: quantumDecrypt_def Let_def)

text \<open>No fingerprint is the empty string.\<close>

theorem wrong_password_rejected_witness:
  "generateEntropyFingerprint [0x70, 0x77] \<noteq> ''''
   \<and> quantumDecrypt [1, 2, 3] [0x70, 0x77] '''' ''00'' (None :: (unit, unit) callback option) ()
       = Inr (None, ())"
proof -
  have ne: "generateEntropyFingerprint [0x70, 0x77] \<noteq> ''''"
    using length_generateEntropyFingerprint [of "[0x70, 0x77]"] by auto
  from wrong_password_rejected [OF ne] ne show ?thesis by simp
qed

text \<open>
  Claim C10.  Two calls of \<open>quantumEncrypt\<close> on the same data and password that return,
  return the same container, fingerprint and hash, whatever callbacks they were given; it is
  the result of the call without a callback, which always returns.
\<close>

theorem encrypt_deterministic:
  assumes "quantumEncrypt data password onProgress1 w1 = Inr (r1, w1')"
    and "quantumEncrypt data password onProgress2 w2 = Inr (r2, w2')"
  shows "r1 = r2 \<and> quantumEncrypt data password (None :: ('v, 'f) callback option) v = Inr (r1, v)"
  using quantumEncrypt_result [OF assms(1)] quantumEncrypt_result [OF assms(2)]
  by (simp add: quantumEncrypt_None)

text \<open>A call without a callback and a call with one that does nothing.\<close>

theorem encrypt_deterministic_witness:
  "quantumEncrypt [1, 2, 3] [0x70, 0x77] (None :: (unit, unit) callback option) ()
     = Inr (\<lparr>r_encrypted = container [1, 2, 3] [0x70, 0x77],
             r_fingerprint = generateEntropyFingerprint [0x70, 0x77],
             r_hash = quantumHash (container [1, 2, 3] [0x70, 0x77]) [0x70, 0x77]\<rparr>, ())
   \<and> quantumEncrypt [1, 2, 3] [0x70, 0x77] (Some (\<lambda>x w. Inr w) :: (unit, unit) callback option) ()
     = Inr (\<lparr>r_encrypted = container [1, 2, 3] [0x70, 0x77],
             r_fingerprint = generateEntropyFingerprint [0x70, 0x77],
             r_hash = quantumHash (container [1, 2, 3] [0x70, 0x77]) [0x70, 0x77]\<rparr>, ())"
proof -
  let ?R = "\<lparr>r_encrypted = container [1, 2, 3] [0x70, 0x77],
             r_fingerprint = generateEntropyFingerprint [0x70, 0x77],
             r_hash = quantumHash (container [1, 2, 3] [0x70, 0x77]) [0x70, 0x77]\<rparr>"
  have a: "quantumEncrypt [1, 2, 3] [0x70, 0x77] (None :: (unit, unit) callback option) () = Inr (?R, ())"
    by (rule quantumEncrypt_None)
  have "\<exists>r w'. quantumEncrypt [1, 2, 3] [0x70, 0x77]
      (Some (\<lambda>x w. Inr w) :: (unit, unit) callback option) () = Inr (r, w')"
    by (rule quantumEncrypt_total) simp
  then obtain r2 w2 where b: "quantumEncrypt [1, 2, 3] [0x70, 0x77]
      (Some (\<lambda>x w. Inr w) :: (unit, unit) callback option) () = Inr (r2, w2)"
    by blast
  from encrypt_deterministic [OF a b, THEN conjunct1] have "r2 = ?R" by (rule sym)
  with a b show ?thesis by simp
qed

end
